theory Spec2Isabelle
  imports Complex_Main "HOL-Library.Product_Lexorder"
begin

section \<open>Data model\<close>

text \<open>
  The embedding follows \<^verbatim>\<open>src/matrix.py\<close>.  Numbers are Python \<^verbatim>\<open>Fraction\<close>s, modelled
  by \<^typ>\<open>rat\<close>: arithmetic is exact, and the only failing arithmetic operation is a division
  by zero, which is written out as an error value.  A \<^verbatim>\<open>Row\<close> holds the list
  \<^verbatim>\<open>__nums\<close>; a \<^verbatim>\<open>Matrix\<close> holds the list \<^verbatim>\<open>__rows\<close> of its rows (the field
  \<^verbatim>\<open>__col_len\<close> is written by the constructor and never read, so it is left out).
  In this first, value-level model a matrix is the list of its rows; the object-level
  model with addresses and sharing comes in a later section.
\<close>

type_synonym row = "rat list"
type_synonym matrix = "row list"

text \<open>
  Every \<^verbatim>\<open>raise\<close> of the source, and every exception of a Python primitive it can reach,
  is an error value: the three \<^verbatim>\<open>ValueError\<close>s of the constructor and of \<^verbatim>\<open>det\<close>
  (\<open>EmptyMatrix\<close>, \<open>RaggedRows\<close>, \<open>NotSquare\<close>), the \<^verbatim>\<open>ValueError\<close> of
  \<^verbatim>\<open>Row.__add__\<close> (\<open>LengthMismatch\<close>), \<^verbatim>\<open>ZeroDivisionError\<close> (\<open>DivideByZero\<close>),
  \<^verbatim>\<open>IndexError\<close> of list indexing, and the \<^verbatim>\<open>ValueError\<close> of \<^verbatim>\<open>max\<close> on an empty
  sequence (\<open>EmptySequence\<close>), which \<^verbatim>\<open>Matrix.__str__\<close> can raise.
\<close>

datatype error =
    EmptyMatrix
  | RaggedRows "nat list"
  | LengthMismatch
  | DivideByZero
  | NotSquare "nat \<times> nat"
  | IndexError
  | EmptySequence

definition ebind :: "error + 'a \<Rightarrow> ('a \<Rightarrow> error + 'b) \<Rightarrow> error + 'b" where
  "ebind m f = (case m of Inl e \<Rightarrow> Inl e | Inr x \<Rightarrow> f x)"

definition run_if :: "bool \<Rightarrow> error + unit \<Rightarrow> error + unit" where
  "run_if b m = (if b then m else Inr ())"

text \<open>\<^verbatim>\<open>a / b\<close> on Fractions raises \<^verbatim>\<open>ZeroDivisionError\<close> when \<^verbatim>\<open>b == 0\<close>.\<close>

definition scalar_div :: "rat \<Rightarrow> rat \<Rightarrow> error + rat" where
  "scalar_div a b = (if b = 0 then Inl DivideByZero else Inr (a / b))"

section \<open>Row\<close>

definition Row_getitem :: "row \<Rightarrow> int \<Rightarrow> error + rat" where
  \<comment> \<open>list indexing of Python: a negative index counts from the end\<close>
  "Row_getitem r i =
     (let n = int (length r); j = (if i < 0 then n + i else i)
      in if 0 \<le> j \<and> j < n then Inr (r ! nat j) else Inl IndexError)"

definition Row_neg :: "row \<Rightarrow> row" where
  "Row_neg r = map (\<lambda>x. - x) r"

definition Row_add :: "row \<Rightarrow> row \<Rightarrow> error + row" where
  "Row_add r other =
     (if length other \<noteq> length r then Inl LengthMismatch
      else Inr (map (\<lambda>(x, y). x + y) (zip r other)))"

definition Row_sub :: "row \<Rightarrow> row \<Rightarrow> error + row" where
  "Row_sub r other = Row_add r (Row_neg other)"

definition Row_mul :: "row \<Rightarrow> rat \<Rightarrow> row" where
  "Row_mul r other = map (\<lambda>x. x * other) r"

definition Row_truediv :: "row \<Rightarrow> rat \<Rightarrow> error + row" where
  "Row_truediv r other = ebind (scalar_div 1 other) (\<lambda>q. Inr (Row_mul r q))"

text \<open>\<^verbatim>\<open>pivot\<close>: the loop over \<^verbatim>\<open>range(len(self))\<close>, with \<^verbatim>\<open>-1\<close> when it runs out.\<close>

fun pivot_scan :: "row \<Rightarrow> nat list \<Rightarrow> int" where
  "pivot_scan r [] = - 1"
| "pivot_scan r (i # rest) = (if r ! i \<noteq> 0 then int i else pivot_scan r rest)"

definition Row_pivot :: "row \<Rightarrow> int" where
  "Row_pivot r = pivot_scan r [0..<length r]"

definition Row_is_zero :: "row \<Rightarrow> bool" where
  "Row_is_zero r = list_all (\<lambda>x. x = 0) r"

section \<open>Matrix: construction and accessors\<close>

definition Matrix_init :: "rat list list \<Rightarrow> error + matrix" where
  "Matrix_init x =
     (let rows = x in
      if length rows = 0 then Inl EmptyMatrix
      else let row_lengths = set (map length rows) in
        if card row_lengths > 1 then Inl (RaggedRows (sorted_list_of_set row_lengths))
        else Inr rows)"

definition Matrix_getitem :: "matrix \<Rightarrow> nat \<Rightarrow> error + row" where
  "Matrix_getitem M i = (if i < length M then Inr (M ! i) else Inl IndexError)"

definition Matrix_setitem :: "matrix \<Rightarrow> nat \<Rightarrow> row \<Rightarrow> error + matrix" where
  "Matrix_setitem M i r = (if i < length M then Inr (M[i := r]) else Inl IndexError)"

definition entry :: "matrix \<Rightarrow> nat \<Rightarrow> int \<Rightarrow> error + rat" where
  \<comment> \<open>\<^verbatim>\<open>M[i][c]\<close>\<close>
  "entry M i c = ebind (Matrix_getitem M i) (\<lambda>r. Row_getitem r c)"

definition Matrix_dim :: "matrix \<Rightarrow> error + (nat \<times> nat)" where
  "Matrix_dim M = ebind (Matrix_getitem M 0) (\<lambda>r. Inr (length M, length r))"

definition swap_rows :: "matrix \<Rightarrow> nat \<Rightarrow> nat \<Rightarrow> error + matrix" where
  "swap_rows M i j =
     ebind (Matrix_getitem M j) (\<lambda>rj.
     ebind (Matrix_getitem M i) (\<lambda>ri.
     ebind (Matrix_setitem M i rj) (\<lambda>M'.
     Matrix_setitem M' j ri)))"

text \<open>
  \<^verbatim>\<open>__deepcopy__\<close> builds \<^verbatim>\<open>Matrix(self.__rows)\<close>: the constructor runs again on the rows.
\<close>

definition Matrix_deepcopy :: "matrix \<Rightarrow> error + matrix" where
  "Matrix_deepcopy M = Matrix_init M"

text \<open>
  \<^verbatim>\<open>print(new)\<close> calls \<^verbatim>\<open>__str__\<close>, whose first line takes \<^verbatim>\<open>max\<close> over all entries and
  raises when there is none.  The text printed is not modelled, only whether printing raises.
\<close>

definition Matrix_print :: "matrix \<Rightarrow> error + unit" where
  "Matrix_print M = (if concat M = [] then Inl EmptySequence else Inr ())"

section \<open>Determinant\<close>

text \<open>The \<^verbatim>\<open>for k ... else\<close> search: \<open>None\<close> is the \<^verbatim>\<open>else: continue\<close> branch.\<close>

fun det_find :: "matrix \<Rightarrow> nat \<Rightarrow> nat list \<Rightarrow> error + nat option" where
  "det_find new i [] = Inr None"
| "det_find new i (k # ks) =
     ebind (entry new k (int i)) (\<lambda>x.
       if x \<noteq> 0 then Inr (Some k) else det_find new i ks)"

fun det_elim :: "int \<Rightarrow> rat \<Rightarrow> nat \<Rightarrow> matrix \<Rightarrow> nat list \<Rightarrow> error + matrix" where
  "det_elim verbose pivot i new [] = Inr new"
| "det_elim verbose pivot i new (j # js) =
     ebind (Matrix_getitem new j) (\<lambda>rj.
     ebind (Row_getitem rj (int i)) (\<lambda>a.
     ebind (Matrix_getitem new i) (\<lambda>ri.
     let op_is_not_useless = (a \<noteq> 0 \<and> \<not> Row_is_zero ri) in
     ebind (run_if (verbose > 1 \<and> op_is_not_useless)
              (ebind (scalar_div (- a) pivot) (\<lambda>_. Inr ()))) (\<lambda>_.
     ebind (Row_truediv (Row_mul (Row_neg ri) a) pivot) (\<lambda>d.
     ebind (Row_add rj d) (\<lambda>r.
     ebind (Matrix_setitem new j r) (\<lambda>new'.
     ebind (run_if (verbose > 1 \<and> op_is_not_useless) (Matrix_print new')) (\<lambda>_.
     det_elim verbose pivot i new' js))))))))"

fun det_loop :: "int \<Rightarrow> matrix \<Rightarrow> int \<Rightarrow> nat list \<Rightarrow> error + (matrix \<times> int)" where
  "det_loop verbose new neg [] = Inr (new, neg)"
| "det_loop verbose new neg (i # rest) =
     ebind (det_find new i [i..<length new]) (\<lambda>found.
       case found of
         None \<Rightarrow> det_loop verbose new neg rest
       | Some k \<Rightarrow>
           ebind (if k \<noteq> i then ebind (swap_rows new i k) (\<lambda>n. Inr (n, neg * (- 1)))
                  else Inr (new, neg)) (\<lambda>(new1, neg1).
           ebind (run_if (verbose > 1 \<and> k \<noteq> i) (Matrix_print new1)) (\<lambda>_.
           ebind (entry new1 i (int i)) (\<lambda>pivot.
           ebind (det_elim verbose pivot i new1 [i + 1..<length new1]) (\<lambda>new2.
           ebind (run_if (verbose = 1) (Matrix_print new2)) (\<lambda>_.
           det_loop verbose new2 neg1 rest))))))"

text \<open>\<^verbatim>\<open>reduce(lambda a, c: a * new[c][c], range(len(new)), 1)\<close>\<close>

fun diag_product :: "matrix \<Rightarrow> rat \<Rightarrow> nat list \<Rightarrow> error + rat" where
  "diag_product new a [] = Inr a"
| "diag_product new a (c # cs) =
     ebind (entry new c (int c)) (\<lambda>x. diag_product new (a * x) cs)"

definition det :: "int \<Rightarrow> matrix \<Rightarrow> error + rat" where
  "det verbose self =
     ebind (Matrix_deepcopy self) (\<lambda>new.
     ebind (Matrix_dim new) (\<lambda>d1.
     ebind (Matrix_dim new) (\<lambda>d2.
     if snd d1 \<noteq> snd d2 then ebind (Matrix_dim new) (\<lambda>d. Inl (NotSquare d))
     else
       ebind (run_if (verbose > 0) (Matrix_print new)) (\<lambda>_.
       ebind (det_loop verbose new 1 [0..<length new]) (\<lambda>(new', neg).
       ebind (diag_product new' 1 [0..<length new']) (\<lambda>p.
       Inr (of_int neg * p)))))))"

section \<open>Row-echelon form\<close>

text \<open>
  The candidates of iteration \<open>i\<close>: the pairs (pivot, row index) of the rows from \<open>i\<close> on,
  sorted by the pair, without those of all-zero rows.
\<close>

definition ref_pivots :: "matrix \<Rightarrow> nat \<Rightarrow> (int \<times> nat) list" where
  "ref_pivots new i =
     filter (\<lambda>x. fst x \<noteq> - 1)
       (sort_key (\<lambda>x. (fst x, snd x))
          (zip (map Row_pivot (drop i (take (length new) new))) [i..<length new]))"

fun ref_elim :: "int \<Rightarrow> int \<Rightarrow> nat \<Rightarrow> matrix \<Rightarrow> nat list \<Rightarrow> error + matrix" where
  "ref_elim verbose pivot_ind i new [] = Inr new"
| "ref_elim verbose pivot_ind i new (j # js) =
     ebind (Matrix_getitem new j) (\<lambda>rj.
     ebind (Row_getitem rj pivot_ind) (\<lambda>a.
     ebind (Matrix_getitem new i) (\<lambda>ri.
     let op_is_not_useless = (a \<noteq> 0 \<and> \<not> Row_is_zero ri) in
     ebind (Row_add rj (Row_mul (Row_neg ri) a)) (\<lambda>r.
     ebind (Matrix_setitem new j r) (\<lambda>new'.
     ebind (run_if (verbose > 1 \<and> op_is_not_useless) (Matrix_print new')) (\<lambda>_.
     ref_elim verbose pivot_ind i new' js))))))"

fun ref_loop :: "int \<Rightarrow> matrix \<Rightarrow> nat list \<Rightarrow> error + matrix" where
  "ref_loop verbose new [] = Inr new"
| "ref_loop verbose new (i # rest) =
     (let pivots = ref_pivots new i in
      if length pivots = 0 then ref_loop verbose new rest
      else
        (case pivots ! 0 of (pivot_ind, pivot_row) \<Rightarrow>
          if pivot_ind = - 1 then ref_loop verbose new rest
          else
            ebind (entry new pivot_row pivot_ind) (\<lambda>pivot.
            ebind (swap_rows new i pivot_row) (\<lambda>new1.
            ebind (run_if (verbose > 1 \<and> pivot_row \<noteq> i) (Matrix_print new1)) (\<lambda>_.
            ebind (Matrix_getitem new1 i) (\<lambda>ri.
            ebind (Row_truediv ri pivot) (\<lambda>ri'.
            ebind (Matrix_setitem new1 i ri') (\<lambda>new2.
            ebind (run_if (verbose > 1 \<and> pivot \<noteq> 1)
                     (ebind (scalar_div 1 pivot) (\<lambda>_. Matrix_print new2))) (\<lambda>_.
            ebind (ref_elim verbose pivot_ind i new2 [i + 1..<length new2]) (\<lambda>new3.
            ebind (run_if (verbose = 1) (Matrix_print new3)) (\<lambda>_.
            ref_loop verbose new3 rest)))))))))))"

definition ref :: "int \<Rightarrow> matrix \<Rightarrow> error + matrix" where
  "ref verbose self =
     ebind (Matrix_deepcopy self) (\<lambda>new.
     ebind (run_if (verbose > 0) (Matrix_print new)) (\<lambda>_.
     ref_loop verbose new [0..<length new]))"

section \<open>Reduced row-echelon form\<close>

fun rref_elim :: "int \<Rightarrow> int \<Rightarrow> rat \<Rightarrow> nat \<Rightarrow> matrix \<Rightarrow> nat list \<Rightarrow> error + matrix" where
  "rref_elim verbose pivot_pos pivot i new [] = Inr new"
| "rref_elim verbose pivot_pos pivot i new (j # js) =
     ebind (Matrix_getitem new j) (\<lambda>rj.
     ebind (Row_getitem rj pivot_pos) (\<lambda>a.
     ebind (Matrix_getitem new i) (\<lambda>ri.
     let op_is_not_useless = (a \<noteq> 0 \<and> \<not> Row_is_zero ri) in
     ebind (run_if (verbose > 1 \<and> op_is_not_useless)
              (ebind (scalar_div (- a) pivot) (\<lambda>_. Inr ()))) (\<lambda>_.
     ebind (Row_truediv (Row_mul (Row_neg ri) a) pivot) (\<lambda>d.
     ebind (Row_add rj d) (\<lambda>r.
     ebind (Matrix_setitem new j r) (\<lambda>new'.
     ebind (run_if (verbose > 1 \<and> op_is_not_useless) (Matrix_print new')) (\<lambda>_.
     rref_elim verbose pivot_pos pivot i new' js))))))))"

fun rref_loop :: "int \<Rightarrow> matrix \<Rightarrow> nat list \<Rightarrow> error + matrix" where
  "rref_loop verbose new [] = Inr new"
| "rref_loop verbose new (i # rest) =
     ebind (Matrix_getitem new i) (\<lambda>ri.
     let pivot_pos = Row_pivot ri in
     if pivot_pos = - 1 then rref_loop verbose new rest
     else
       ebind (Row_getitem ri pivot_pos) (\<lambda>pivot.
       ebind (rref_elim verbose pivot_pos pivot i new [0..<i]) (\<lambda>new1.
       ebind (run_if (verbose = 1) (Matrix_print new1)) (\<lambda>_.
       rref_loop verbose new1 rest))))"

definition rref :: "int \<Rightarrow> matrix \<Rightarrow> error + matrix" where
  "rref verbose self =
     ebind (ref verbose self) (\<lambda>new. rref_loop verbose new [1..<length new])"

section \<open>The object store\<close>

text \<open>
  The value-level model above cannot say that the receiver of \<^verbatim>\<open>det\<close>, \<^verbatim>\<open>ref\<close> or
  \<^verbatim>\<open>rref\<close> is left alone: that is a statement about objects.  This section models the
  objects of the source.  A \<^verbatim>\<open>Row\<close> object holds its list \<^verbatim>\<open>__nums\<close>, a \<^verbatim>\<open>Matrix\<close>
  object the list \<^verbatim>\<open>__rows\<close> of references to its rows; both lists are created by the
  constructors and referenced by their object alone, so each is stored with its object.
  New objects get the next unused address.  A program takes the store and returns its
  result, or the exception it raised, with the store it leaves behind.
\<close>

type_synonym addr = nat

record heap =
  matrices :: "addr \<Rightarrow> addr list option"
  row_objs :: "addr \<Rightarrow> rat list option"
  next_addr :: addr

type_synonym 'a prog = "heap \<Rightarrow> (error + 'a) \<times> heap"

definition hret :: "'a \<Rightarrow> 'a prog" where
  "hret x = (\<lambda>h. (Inr x, h))"

definition hlift :: "error + 'a \<Rightarrow> 'a prog" where
  "hlift r = (\<lambda>h. (r, h))"

definition hbind :: "'a prog \<Rightarrow> ('a \<Rightarrow> 'b prog) \<Rightarrow> 'b prog" where
  "hbind m f = (\<lambda>h. case m h of (Inl e, h') \<Rightarrow> (Inl e, h') | (Inr x, h') \<Rightarrow> f x h')"

definition hwhen :: "bool \<Rightarrow> unit prog \<Rightarrow> unit prog" where
  "hwhen b m = (if b then m else hret ())"

fun hmap :: "('a \<Rightarrow> 'b prog) \<Rightarrow> 'a list \<Rightarrow> 'b list prog" where
  "hmap f [] = hret []"
| "hmap f (x # xs) = hbind (f x) (\<lambda>y. hbind (hmap f xs) (\<lambda>ys. hret (y # ys)))"

subsection \<open>Row objects\<close>

definition Row_new :: "rat list \<Rightarrow> addr prog" where
  \<comment> \<open>\<^verbatim>\<open>Row(x)\<close>: a new object with the list \<^verbatim>\<open>list(x)\<close>\<close>
  "Row_new ns = (\<lambda>h. (Inr (next_addr h),
     h\<lparr>row_objs := (row_objs h)(next_addr h \<mapsto> ns), next_addr := Suc (next_addr h)\<rparr>))"

definition Row_nums :: "addr \<Rightarrow> rat list prog" where
  \<comment> \<open>reading \<^verbatim>\<open>self.__nums\<close>\<close>
  "Row_nums r = (\<lambda>h. (Inr (case row_objs h r of None \<Rightarrow> [] | Some ns \<Rightarrow> ns), h))"

definition Row_len_o :: "addr \<Rightarrow> nat prog" where
  "Row_len_o r = hbind (Row_nums r) (\<lambda>ns. hret (length ns))"

definition Row_getitem_o :: "addr \<Rightarrow> int \<Rightarrow> rat prog" where
  "Row_getitem_o r i = hbind (Row_nums r) (\<lambda>ns. hlift (Row_getitem ns i))"

definition Row_neg_o :: "addr \<Rightarrow> addr prog" where
  "Row_neg_o r = hbind (Row_nums r) (\<lambda>ns. Row_new (Row_neg ns))"

definition Row_add_o :: "addr \<Rightarrow> addr \<Rightarrow> addr prog" where
  "Row_add_o r other =
     hbind (Row_nums r) (\<lambda>a.
     hbind (Row_nums other) (\<lambda>b.
     hbind (hlift (Row_add a b)) Row_new))"

definition Row_mul_o :: "addr \<Rightarrow> rat \<Rightarrow> addr prog" where
  "Row_mul_o r other = hbind (Row_nums r) (\<lambda>ns. Row_new (Row_mul ns other))"

definition Row_truediv_o :: "addr \<Rightarrow> rat \<Rightarrow> addr prog" where
  "Row_truediv_o r other = hbind (hlift (scalar_div 1 other)) (\<lambda>q. Row_mul_o r q)"

definition Row_pivot_o :: "addr \<Rightarrow> int prog" where
  "Row_pivot_o r = hbind (Row_nums r) (\<lambda>ns. hret (Row_pivot ns))"

definition Row_is_zero_o :: "addr \<Rightarrow> bool prog" where
  "Row_is_zero_o r = hbind (Row_nums r) (\<lambda>ns. hret (Row_is_zero ns))"

subsection \<open>Matrix objects\<close>

definition Matrix_new :: "addr list \<Rightarrow> addr prog" where
  "Matrix_new rs = (\<lambda>h. (Inr (next_addr h),
     h\<lparr>matrices := (matrices h)(next_addr h \<mapsto> rs), next_addr := Suc (next_addr h)\<rparr>))"

definition Matrix_rows :: "addr \<Rightarrow> addr list prog" where
  \<comment> \<open>reading \<^verbatim>\<open>self.__rows\<close>\<close>
  "Matrix_rows m = (\<lambda>h. (Inr (case matrices h m of None \<Rightarrow> [] | Some rs \<Rightarrow> rs), h))"

text \<open>
  The constructor, given what iterating each element of its argument yields: it creates
  the rows, then checks their number and their lengths.
\<close>

definition Matrix_init_o :: "rat list list \<Rightarrow> addr prog" where
  "Matrix_init_o x =
     hbind (hmap Row_new x) (\<lambda>rows.
       if length rows = 0 then hlift (Inl EmptyMatrix)
       else
         hbind (hmap Row_len_o rows) (\<lambda>lens.
           let row_lengths = set lens in
           if card row_lengths > 1
           then hlift (Inl (RaggedRows (sorted_list_of_set row_lengths)))
           else Matrix_new rows))"

text \<open>
  \<^verbatim>\<open>__deepcopy__\<close> is \<^verbatim>\<open>Matrix(self.__rows)\<close>: the constructor iterates every row of the
  receiver, which reads its numbers, and builds a new row from them.
\<close>

definition Matrix_deepcopy_o :: "addr \<Rightarrow> addr prog" where
  "Matrix_deepcopy_o m =
     hbind (Matrix_rows m) (\<lambda>rs.
     hbind (hmap Row_nums rs) (\<lambda>x.
     Matrix_init_o x))"

definition Matrix_len_o :: "addr \<Rightarrow> nat prog" where
  "Matrix_len_o m = hbind (Matrix_rows m) (\<lambda>rs. hret (length rs))"

definition Matrix_getitem_o :: "addr \<Rightarrow> nat \<Rightarrow> addr prog" where
  "Matrix_getitem_o m i =
     hbind (Matrix_rows m) (\<lambda>rs.
       hlift (if i < length rs then Inr (rs ! i) else Inl IndexError))"

definition Matrix_setitem_o :: "addr \<Rightarrow> nat \<Rightarrow> addr \<Rightarrow> unit prog" where
  "Matrix_setitem_o m i r = (\<lambda>h.
     let rs = (case matrices h m of None \<Rightarrow> [] | Some rs \<Rightarrow> rs) in
     if i < length rs then (Inr (), h\<lparr>matrices := (matrices h)(m \<mapsto> rs[i := r])\<rparr>)
     else (Inl IndexError, h))"

definition entry_o :: "addr \<Rightarrow> nat \<Rightarrow> int \<Rightarrow> rat prog" where
  "entry_o m i c = hbind (Matrix_getitem_o m i) (\<lambda>r. Row_getitem_o r c)"

definition Matrix_dim_o :: "addr \<Rightarrow> (nat \<times> nat) prog" where
  "Matrix_dim_o m =
     hbind (Matrix_len_o m) (\<lambda>n.
     hbind (Matrix_getitem_o m 0) (\<lambda>r.
     hbind (Row_len_o r) (\<lambda>c. hret (n, c))))"

definition swap_rows_o :: "addr \<Rightarrow> nat \<Rightarrow> nat \<Rightarrow> unit prog" where
  "swap_rows_o m i j =
     hbind (Matrix_getitem_o m j) (\<lambda>rj.
     hbind (Matrix_getitem_o m i) (\<lambda>ri.
     hbind (Matrix_setitem_o m i rj) (\<lambda>_.
     Matrix_setitem_o m j ri)))"

definition Matrix_print_o :: "addr \<Rightarrow> unit prog" where
  "Matrix_print_o m =
     hbind (Matrix_rows m) (\<lambda>rs.
     hbind (hmap Row_nums rs) (\<lambda>x.
       if concat x = [] then hlift (Inl EmptySequence) else hret ()))"

subsection \<open>The three algorithms on objects\<close>

fun det_find_o :: "addr \<Rightarrow> nat \<Rightarrow> nat list \<Rightarrow> nat option prog" where
  "det_find_o new i [] = hret None"
| "det_find_o new i (k # ks) =
     hbind (entry_o new k (int i)) (\<lambda>x.
       if x \<noteq> 0 then hret (Some k) else det_find_o new i ks)"

fun det_elim_o :: "int \<Rightarrow> rat \<Rightarrow> nat \<Rightarrow> addr \<Rightarrow> nat list \<Rightarrow> unit prog" where
  "det_elim_o verbose pivot i new [] = hret ()"
| "det_elim_o verbose pivot i new (j # js) =
     hbind (Matrix_getitem_o new j) (\<lambda>rj.
     hbind (Row_getitem_o rj (int i)) (\<lambda>a.
     hbind (Matrix_getitem_o new i) (\<lambda>ri.
     hbind (Row_is_zero_o ri) (\<lambda>z.
     hbind (hwhen (verbose > 1 \<and> a \<noteq> 0 \<and> \<not> z)
              (hbind (hlift (scalar_div (- a) pivot)) (\<lambda>_. hret ()))) (\<lambda>_.
     hbind (Row_neg_o ri) (\<lambda>r1.
     hbind (Row_mul_o r1 a) (\<lambda>r2.
     hbind (Row_truediv_o r2 pivot) (\<lambda>d.
     hbind (Row_add_o rj d) (\<lambda>r.
     hbind (Matrix_setitem_o new j r) (\<lambda>_.
     hbind (hwhen (verbose > 1 \<and> a \<noteq> 0 \<and> \<not> z) (Matrix_print_o new)) (\<lambda>_.
     det_elim_o verbose pivot i new js)))))))))))"

fun det_loop_o :: "int \<Rightarrow> addr \<Rightarrow> int \<Rightarrow> nat list \<Rightarrow> int prog" where
  "det_loop_o verbose new neg [] = hret neg"
| "det_loop_o verbose new neg (i # rest) =
     hbind (Matrix_len_o new) (\<lambda>n.
     hbind (det_find_o new i [i..<n]) (\<lambda>found.
       case found of
         None \<Rightarrow> det_loop_o verbose new neg rest
       | Some k \<Rightarrow>
           hbind (if k \<noteq> i then hbind (swap_rows_o new i k) (\<lambda>_. hret (neg * (- 1)))
                  else hret neg) (\<lambda>neg1.
           hbind (hwhen (verbose > 1 \<and> k \<noteq> i) (Matrix_print_o new)) (\<lambda>_.
           hbind (entry_o new i (int i)) (\<lambda>pivot.
           hbind (det_elim_o verbose pivot i new [i + 1..<n]) (\<lambda>_.
           hbind (hwhen (verbose = 1) (Matrix_print_o new)) (\<lambda>_.
           det_loop_o verbose new neg1 rest)))))))"

fun diag_product_o :: "addr \<Rightarrow> rat \<Rightarrow> nat list \<Rightarrow> rat prog" where
  "diag_product_o new a [] = hret a"
| "diag_product_o new a (c # cs) =
     hbind (entry_o new c (int c)) (\<lambda>x. diag_product_o new (a * x) cs)"

definition det_o :: "int \<Rightarrow> addr \<Rightarrow> rat prog" where
  "det_o verbose self =
     hbind (Matrix_deepcopy_o self) (\<lambda>new.
     hbind (Matrix_dim_o new) (\<lambda>d1.
     hbind (Matrix_dim_o new) (\<lambda>d2.
     if snd d1 \<noteq> snd d2 then hbind (Matrix_dim_o new) (\<lambda>d. hlift (Inl (NotSquare d)))
     else
       hbind (hwhen (verbose > 0) (Matrix_print_o new)) (\<lambda>_.
       hbind (Matrix_len_o new) (\<lambda>n.
       hbind (det_loop_o verbose new 1 [0..<n]) (\<lambda>neg.
       hbind (diag_product_o new 1 [0..<n]) (\<lambda>p.
       hret (of_int neg * p))))))))"

definition ref_pivots_o :: "addr \<Rightarrow> nat \<Rightarrow> (int \<times> nat) list prog" where
  "ref_pivots_o new i =
     hbind (Matrix_rows new) (\<lambda>rs.
     hbind (hmap Row_pivot_o (drop i (take (length rs) rs))) (\<lambda>ps.
     hret (filter (\<lambda>x. fst x \<noteq> - 1)
             (sort_key (\<lambda>x. (fst x, snd x)) (zip ps [i..<length rs])))))"

fun ref_elim_o :: "int \<Rightarrow> int \<Rightarrow> nat \<Rightarrow> addr \<Rightarrow> nat list \<Rightarrow> unit prog" where
  "ref_elim_o verbose pivot_ind i new [] = hret ()"
| "ref_elim_o verbose pivot_ind i new (j # js) =
     hbind (Matrix_getitem_o new j) (\<lambda>rj.
     hbind (Row_getitem_o rj pivot_ind) (\<lambda>a.
     hbind (Matrix_getitem_o new i) (\<lambda>ri.
     hbind (Row_is_zero_o ri) (\<lambda>z.
     hbind (Row_neg_o ri) (\<lambda>r1.
     hbind (Row_mul_o r1 a) (\<lambda>r2.
     hbind (Row_add_o rj r2) (\<lambda>r.
     hbind (Matrix_setitem_o new j r) (\<lambda>_.
     hbind (hwhen (verbose > 1 \<and> a \<noteq> 0 \<and> \<not> z) (Matrix_print_o new)) (\<lambda>_.
     ref_elim_o verbose pivot_ind i new js)))))))))"

fun ref_loop_o :: "int \<Rightarrow> addr \<Rightarrow> nat list \<Rightarrow> unit prog" where
  "ref_loop_o verbose new [] = hret ()"
| "ref_loop_o verbose new (i # rest) =
     hbind (ref_pivots_o new i) (\<lambda>pivots.
       if length pivots = 0 then ref_loop_o verbose new rest
       else
         (case pivots ! 0 of (pivot_ind, pivot_row) \<Rightarrow>
           if pivot_ind = - 1 then ref_loop_o verbose new rest
           else
             hbind (entry_o new pivot_row pivot_ind) (\<lambda>pivot.
             hbind (swap_rows_o new i pivot_row) (\<lambda>_.
             hbind (hwhen (verbose > 1 \<and> pivot_row \<noteq> i) (Matrix_print_o new)) (\<lambda>_.
             hbind (Matrix_getitem_o new i) (\<lambda>ri.
             hbind (Row_truediv_o ri pivot) (\<lambda>ri'.
             hbind (Matrix_setitem_o new i ri') (\<lambda>_.
             hbind (hwhen (verbose > 1 \<and> pivot \<noteq> 1)
                      (hbind (hlift (scalar_div 1 pivot)) (\<lambda>_. Matrix_print_o new))) (\<lambda>_.
             hbind (Matrix_len_o new) (\<lambda>n.
             hbind (ref_elim_o verbose pivot_ind i new [i + 1..<n]) (\<lambda>_.
             hbind (hwhen (verbose = 1) (Matrix_print_o new)) (\<lambda>_.
             ref_loop_o verbose new rest))))))))))))"

definition ref_o :: "int \<Rightarrow> addr \<Rightarrow> addr prog" where
  "ref_o verbose self =
     hbind (Matrix_deepcopy_o self) (\<lambda>new.
     hbind (hwhen (verbose > 0) (Matrix_print_o new)) (\<lambda>_.
     hbind (Matrix_len_o new) (\<lambda>n.
     hbind (ref_loop_o verbose new [0..<n]) (\<lambda>_.
     hret new))))"

fun rref_elim_o :: "int \<Rightarrow> int \<Rightarrow> rat \<Rightarrow> nat \<Rightarrow> addr \<Rightarrow> nat list \<Rightarrow> unit prog" where
  "rref_elim_o verbose pivot_pos pivot i new [] = hret ()"
| "rref_elim_o verbose pivot_pos pivot i new (j # js) =
     hbind (Matrix_getitem_o new j) (\<lambda>rj.
     hbind (Row_getitem_o rj pivot_pos) (\<lambda>a.
     hbind (Matrix_getitem_o new i) (\<lambda>ri.
     hbind (Row_is_zero_o ri) (\<lambda>z.
     hbind (hwhen (verbose > 1 \<and> a \<noteq> 0 \<and> \<not> z)
              (hbind (hlift (scalar_div (- a) pivot)) (\<lambda>_. hret ()))) (\<lambda>_.
     hbind (Row_neg_o ri) (\<lambda>r1.
     hbind (Row_mul_o r1 a) (\<lambda>r2.
     hbind (Row_truediv_o r2 pivot) (\<lambda>d.
     hbind (Row_add_o rj d) (\<lambda>r.
     hbind (Matrix_setitem_o new j r) (\<lambda>_.
     hbind (hwhen (verbose > 1 \<and> a \<noteq> 0 \<and> \<not> z) (Matrix_print_o new)) (\<lambda>_.
     rref_elim_o verbose pivot_pos pivot i new js)))))))))))"

fun rref_loop_o :: "int \<Rightarrow> addr \<Rightarrow> nat list \<Rightarrow> unit prog" where
  "rref_loop_o verbose new [] = hret ()"
| "rref_loop_o verbose new (i # rest) =
     hbind (Matrix_getitem_o new i) (\<lambda>ri.
     hbind (Row_pivot_o ri) (\<lambda>pivot_pos.
       if pivot_pos = - 1 then rref_loop_o verbose new rest
       else
         hbind (Row_getitem_o ri pivot_pos) (\<lambda>pivot.
         hbind (rref_elim_o verbose pivot_pos pivot i new [0..<i]) (\<lambda>_.
         hbind (hwhen (verbose = 1) (Matrix_print_o new)) (\<lambda>_.
         rref_loop_o verbose new rest)))))"

definition rref_o :: "int \<Rightarrow> addr \<Rightarrow> addr prog" where
  "rref_o verbose self =
     hbind (ref_o verbose self) (\<lambda>new.
     hbind (Matrix_len_o new) (\<lambda>n.
     hbind (rref_loop_o verbose new [1..<n]) (\<lambda>_.
     hret new)))"

text \<open>The matrix an object stands for: the numbers of its rows.\<close>

definition matrix_at :: "heap \<Rightarrow> addr \<Rightarrow> matrix" where
  "matrix_at h m =
     map (\<lambda>r. case row_objs h r of None \<Rightarrow> [] | Some ns \<Rightarrow> ns)
       (case matrices h m of None \<Rightarrow> [] | Some rs \<Rightarrow> rs)"

text \<open>
  A matrix object of the store: it and its rows were allocated, that is, they lie below
  the next unused address.
\<close>

definition matrix_obj :: "heap \<Rightarrow> addr \<Rightarrow> bool" where
  "matrix_obj h m =
     (m < next_addr h \<and>
      (case matrices h m of None \<Rightarrow> False | Some rs \<Rightarrow> list_all (\<lambda>r. r < next_addr h) rs))"

text \<open>
  \<open>keeps L Q p\<close>: run in a store whose objects below \<open>L\<close> all exist already, the program
  \<open>p\<close> changes no object below \<open>L\<close>, allocates upwards only, and returns a result
  satisfying \<open>Q\<close> when it returns.
\<close>

definition keeps :: "addr \<Rightarrow> ('a \<Rightarrow> bool) \<Rightarrow> 'a prog \<Rightarrow> bool" where
  "keeps L Q p =
     (\<forall>h. L \<le> next_addr h \<longrightarrow>
        (case p h of (r, h') \<Rightarrow>
           next_addr h \<le> next_addr h' \<and>
           (\<forall>a<L. matrices h' a = matrices h a \<and> row_objs h' a = row_objs h a) \<and>
           (\<forall>x. r = Inr x \<longrightarrow> Q x)))"

definition empty_heap :: heap where
  "empty_heap = \<lparr>matrices = (\<lambda>_. None), row_objs = (\<lambda>_. None), next_addr = 0\<rparr>"

section \<open>Valid matrices\<close>

text \<open>
  The constructor's invariant: at least one row, and every row as long as the first.
  The matrices that exist at run time are exactly the lists the constructor accepts.
\<close>

definition valid_matrix :: "matrix \<Rightarrow> bool" where
  "valid_matrix A = (A \<noteq> [] \<and> list_all (\<lambda>r. length r = length (hd A)) A)"

text \<open>\<open>uniform n M\<close>: every row of \<open>M\<close> has \<open>n\<close> entries.\<close>

definition uniform :: "nat \<Rightarrow> matrix \<Rightarrow> bool" where
  "uniform n M = list_all (\<lambda>r. length r = n) M"

section \<open>Closed forms used in the proofs\<close>

text \<open>
  The three inner loops of the source replace row \<open>j\<close> by row \<open>j\<close> minus a multiple of row
  \<open>i\<close>.  The proofs describe what they compute by the following total functions; that the
  loops of the model return exactly these values is proved below
  (\<open>det_elim_pure\<close>, \<open>ref_elim_pure\<close>, \<open>rref_elim_pure\<close>).
\<close>

definition comb_row :: "rat \<Rightarrow> row \<Rightarrow> row \<Rightarrow> row" where
  "comb_row k rj ri = map (\<lambda>(y, x). y - x * k) (zip rj ri)"

fun elim_pure :: "rat \<Rightarrow> nat \<Rightarrow> nat \<Rightarrow> nat list \<Rightarrow> matrix \<Rightarrow> matrix" where
  "elim_pure q p i [] M = M"
| "elim_pure q p i (j # js) M =
     elim_pure q p i js (M[j := comb_row ((M ! j ! p) * q) (M ! j) (M ! i)])"

text \<open>One iteration of the outer loop of \<^verbatim>\<open>ref\<close>, and the whole loop, as total functions.\<close>

definition ref_step_pure :: "nat \<Rightarrow> matrix \<Rightarrow> matrix" where
  "ref_step_pure i M =
     (let pivots = ref_pivots M i in
      if pivots = [] then M
      else
        let p = nat (fst (pivots ! 0)); pr = snd (pivots ! 0);
            M1 = (M[i := M ! pr])[pr := M ! i];
            M2 = M1[i := Row_mul (M1 ! i) (1 / (M ! pr ! p))]
        in elim_pure 1 p i [i + 1..<length M] M2)"

definition ref_pure :: "matrix \<Rightarrow> matrix" where
  "ref_pure M = fold ref_step_pure [0..<length M] M"

text \<open>
  One iteration of the outer loop of \<^verbatim>\<open>det\<close> on the pair of the working matrix and the
  sign, and the value \<^verbatim>\<open>det\<close> returns when nothing raises, as total functions.
\<close>

definition det_step_pure :: "nat \<Rightarrow> matrix \<times> int \<Rightarrow> matrix \<times> int" where
  "det_step_pure i s =
     (case s of (M, neg) \<Rightarrow>
       (case find (\<lambda>k. M ! k ! i \<noteq> 0) [i..<length M] of
          None \<Rightarrow> (M, neg)
        | Some k \<Rightarrow>
            let M1 = (if k \<noteq> i then (M[i := M ! k])[k := M ! i] else M);
                neg1 = (if k \<noteq> i then neg * (- 1) else neg)
            in (elim_pure (1 / (M1 ! i ! i)) i i [i + 1..<length M] M1, neg1)))"

definition det_pure :: "matrix \<Rightarrow> rat" where
  "det_pure A =
     (case fold det_step_pure [0..<length A] (A, 1) of
        (M, neg) \<Rightarrow> of_int neg * prod_list (map (\<lambda>c. M ! c ! c) [0..<length M]))"

text \<open>
  Two properties of the working matrix of \<^verbatim>\<open>det\<close>.  \<open>dependent_rows n M\<close>: some combination
  of the rows of \<open>M\<close>, not all coefficients zero, vanishes in the first \<open>n\<close> columns.
  \<open>lower_zero i M\<close>: the columns before \<open>i\<close> are zero below the diagonal.
\<close>

definition dependent_rows :: "nat \<Rightarrow> matrix \<Rightarrow> bool" where
  "dependent_rows n M =
     (\<exists>c. (\<exists>k<length M. c k \<noteq> 0) \<and> (\<forall>col<n. (\<Sum>k<length M. c k * M ! k ! col) = 0))"

definition lower_zero :: "nat \<Rightarrow> matrix \<Rightarrow> bool" where
  "lower_zero i M = (\<forall>col<i. \<forall>r. col < r \<and> r < length M \<longrightarrow> M ! r ! col = 0)"

section \<open>Echelon forms\<close>

text \<open>
  The invariant of the outer loop of \<^verbatim>\<open>ref\<close>.  Row \<open>r\<close> is settled when either it and all
  rows below it are zero (\<open>zeros_from\<close>), or it has a leading entry \<open>1\<close> in some column \<open>p\<close>
  and every row below it is zero up to and including column \<open>p\<close> (\<open>unit_pivot\<close>).
  \<open>ref_inv i M\<close>: the rows before \<open>i\<close> are settled.
\<close>

definition zeros_from :: "matrix \<Rightarrow> nat \<Rightarrow> bool" where
  "zeros_from M r = (\<forall>s. r \<le> s \<and> s < length M \<longrightarrow> Row_pivot (M ! s) = - 1)"

definition unit_pivot :: "matrix \<Rightarrow> nat \<Rightarrow> nat \<Rightarrow> bool" where
  "unit_pivot M r p =
     (p < length (M ! r) \<and> M ! r ! p = 1 \<and> (\<forall>c<p. M ! r ! c = 0) \<and>
      (\<forall>s. r < s \<and> s < length M \<longrightarrow> (\<forall>c\<le>p. M ! s ! c = 0)))"

definition ref_inv :: "nat \<Rightarrow> matrix \<Rightarrow> bool" where
  "ref_inv i M = (\<forall>r<i. zeros_from M r \<or> (\<exists>p. unit_pivot M r p))"

text \<open>
  The postcondition of \<^verbatim>\<open>ref\<close> as the specification words it: zero rows below the non-zero
  rows, pivot columns weakly increasing down the non-zero rows, every leading entry \<open>1\<close>.
\<close>

definition ref_post :: "matrix \<Rightarrow> bool" where
  "ref_post R =
     ((\<forall>i\<in>set [0..<length R]. \<forall>j\<in>set [0..<length R]. i < j \<longrightarrow>
         (Row_is_zero (R ! i) \<longrightarrow> Row_is_zero (R ! j)) \<and>
         (\<not> Row_is_zero (R ! i) \<and> \<not> Row_is_zero (R ! j) \<longrightarrow>
            Row_pivot (R ! i) \<le> Row_pivot (R ! j))) \<and>
      (\<forall>i\<in>set [0..<length R]. \<not> Row_is_zero (R ! i) \<longrightarrow>
         R ! i ! nat (Row_pivot (R ! i)) = 1))"

text \<open>One iteration of the upward pass of \<^verbatim>\<open>rref\<close>, and the whole pass, as total functions.\<close>

definition rref_step_pure :: "nat \<Rightarrow> matrix \<Rightarrow> matrix" where
  "rref_step_pure i M =
     (let pivot_pos = Row_pivot (M ! i) in
      if pivot_pos = - 1 then M
      else elim_pure (1 / (M ! i ! nat pivot_pos)) (nat pivot_pos) i [0..<i] M)"

definition rref_up :: "matrix \<Rightarrow> matrix" where
  "rref_up M = fold rref_step_pure [1..<length M] M"

definition rref_pure :: "matrix \<Rightarrow> matrix" where
  "rref_pure M = rref_up (ref_pure M)"

text \<open>
  The invariant of the upward pass: the matrix stays in echelon form, and the pivot column
  of every row before \<open>i\<close> is zero above that row.
\<close>

definition rref_inv :: "nat \<Rightarrow> matrix \<Rightarrow> bool" where
  "rref_inv i M =
     (ref_inv (length M) M \<and>
      (\<forall>r<i. \<forall>p. unit_pivot M r p \<longrightarrow> (\<forall>j<r. M ! j ! p = 0)))"

text \<open>
  The postcondition of \<^verbatim>\<open>rref\<close>: that of \<^verbatim>\<open>ref\<close>, and the pivot column of every
  non-zero row is zero in every other row.
\<close>

definition rref_post :: "matrix \<Rightarrow> bool" where
  "rref_post R =
     (ref_post R \<and>
      (\<forall>i\<in>set [0..<length R]. \<not> Row_is_zero (R ! i) \<longrightarrow>
         (\<forall>j\<in>set [0..<length R]. j \<noteq> i \<longrightarrow> R ! j ! nat (Row_pivot (R ! i)) = 0)))"

section \<open>The constructor\<close>

lemma valid_matrix_nonempty: "valid_matrix x \<Longrightarrow> x \<noteq> []"
  by (simp add: valid_matrix_def)

lemma card_lengths_le_1:
  assumes ne: "x \<noteq> []"
  shows "(card (set (map length x)) \<le> 1) = valid_matrix x"
proof -
  let ?S = "set (map length x)"
  have fin: "finite ?S" by simp
  have hd_in: "length (hd x) \<in> ?S" using ne by (cases x) auto
  have "(card ?S \<le> 1) = (\<forall>r\<in>set x. length r = length (hd x))"
  proof
    assume "card ?S \<le> 1"
    then have "card ?S = 1" using hd_in fin
      by (metis card_0_eq empty_iff le_antisym less_one not_less) 
    then obtain a where "?S = {a}" by (auto simp: card_1_singleton_iff)
    then show "\<forall>r\<in>set x. length r = length (hd x)" using hd_in
      by (metis image_eqI list.set_map singletonD)
  next
    assume "\<forall>r\<in>set x. length r = length (hd x)"
    then have "?S \<subseteq> {length (hd x)}" by auto
    then have "card ?S \<le> card {length (hd x)}" by (intro card_mono) auto
    then show "card ?S \<le> 1" by simp
  qed
  then show ?thesis using ne by (simp only: valid_matrix_def list_all_iff simp_thms)
qed

lemma Matrix_init_eq:
  "Matrix_init x =
     (if x = [] then Inl EmptyMatrix
      else if valid_matrix x then Inr x
      else Inl (RaggedRows (sorted_list_of_set (set (map length x)))))"
proof (cases "x = []")
  case True
  then show ?thesis by (simp add: Matrix_init_def)
next
  case False
  have "(1 < card (set (map length x))) = (\<not> valid_matrix x)"
    using card_lengths_le_1[OF False] by auto
  then show ?thesis using False by (simp add: Matrix_init_def Let_def)
qed

lemma Matrix_init_valid: "Matrix_init x = Inr A \<longleftrightarrow> x = A \<and> valid_matrix A"
  by (cases "x = []") (auto simp: Matrix_init_eq dest: valid_matrix_nonempty)

lemma valid_matrix_iff:
  "valid_matrix x \<longleftrightarrow> x \<noteq> [] \<and> (\<forall>r\<in>set x. \<forall>s\<in>set x. length r = length s)"
proof (cases x)
  case Nil
  then show ?thesis by (simp add: valid_matrix_def)
next
  case (Cons a xs)
  have "(\<forall>r\<in>set (a # xs). length r = length a) \<longleftrightarrow>
        (\<forall>r\<in>set (a # xs). \<forall>s\<in>set (a # xs). length r = length s)"
    by (metis list.set_intros(1))
  then show ?thesis by (simp only: Cons valid_matrix_def list_all_iff list.sel)
qed

text \<open>
  Claim C5.  The constructor fails with \<open>EmptyMatrix\<close> exactly when no row is given, and with
  \<open>RaggedRows\<close> exactly when two of the given rows differ in length; the error then carries
  the distinct row lengths (as a sorted list without repetition).  It succeeds exactly on a
  non-empty list of rows of one length, and then returns the rows as given.  The two examples
  of the specification are the last two conjuncts.
\<close>

theorem Matrix_init_errors:
  "(Matrix_init x = Inl EmptyMatrix \<longleftrightarrow> x = []) \<and>
   ((\<exists>ls. Matrix_init x = Inl (RaggedRows ls)) \<longleftrightarrow> (\<exists>r\<in>set x. \<exists>s\<in>set x. length r \<noteq> length s)) \<and>
   (\<forall>ls. Matrix_init x = Inl (RaggedRows ls) \<longrightarrow>
      sorted ls \<and> distinct ls \<and> set ls = length ` set x) \<and>
   ((\<exists>A. Matrix_init x = Inr A) \<longleftrightarrow> x \<noteq> [] \<and> (\<forall>r\<in>set x. \<forall>s\<in>set x. length r = length s)) \<and>
   (\<forall>A. Matrix_init x = Inr A \<longrightarrow> A = x) \<and>
   Matrix_init [[1, 2], [3, 4, 5]] = Inl (RaggedRows [2, 3]) \<and>
   Matrix_init [] = Inl EmptyMatrix"
proof -
  note ne = valid_matrix_nonempty
  have c1: "Matrix_init x = Inl EmptyMatrix \<longleftrightarrow> x = []"
    by (simp add: Matrix_init_eq)
  have "(\<exists>ls. Matrix_init x = Inl (RaggedRows ls)) \<longleftrightarrow> x \<noteq> [] \<and> \<not> valid_matrix x"
    by (simp add: Matrix_init_eq)
  then have c2: "(\<exists>ls. Matrix_init x = Inl (RaggedRows ls)) \<longleftrightarrow>
      (\<exists>r\<in>set x. \<exists>s\<in>set x. length r \<noteq> length s)"
  proof (cases "x = []")
    case True
    then show ?thesis by (simp add: Matrix_init_eq)
  next
    case False
    then show ?thesis using \<open>(\<exists>ls. Matrix_init x = Inl (RaggedRows ls)) \<longleftrightarrow> x \<noteq> [] \<and> \<not> valid_matrix x\<close>
      unfolding valid_matrix_iff by blast
  qed
  have c3: "\<forall>ls. Matrix_init x = Inl (RaggedRows ls) \<longrightarrow>
      sorted ls \<and> distinct ls \<and> set ls = length ` set x"
    by (simp add: Matrix_init_eq)
  have "(\<exists>A. Matrix_init x = Inr A) \<longleftrightarrow> valid_matrix x"
    using ne by (cases "x = []") (auto simp add: Matrix_init_eq)
  then have c4: "(\<exists>A. Matrix_init x = Inr A) \<longleftrightarrow>
      x \<noteq> [] \<and> (\<forall>r\<in>set x. \<forall>s\<in>set x. length r = length s)"
    unfolding valid_matrix_iff .
  have c5: "\<forall>A. Matrix_init x = Inr A \<longrightarrow> A = x"
    by (simp add: Matrix_init_eq)
  have c6: "Matrix_init [[1, 2], [3, 4, 5]] = Inl (RaggedRows [2, 3])" by code_simp
  have c7: "Matrix_init [] = Inl EmptyMatrix" by (simp add: Matrix_init_eq)
  from c1 c2 c3 c4 c5 c6 c7 show ?thesis by (intro conjI)
qed

theorem Matrix_init_errors_witness:
  "[[1, 2], [3, 4]] \<noteq> ([] :: rat list list) \<and> Matrix_init [[1, 2], [3, 4]] = Inr [[1, 2], [3, 4]]"
proof -
  note t = Matrix_init_errors [of "[[1, 2], [3, 4]]"]
  from t have "\<exists>A. Matrix_init [[1, 2], [3, 4]] = Inr A" by simp
  moreover from t have "\<forall>A. Matrix_init [[1, 2], [3, 4]] = Inr A \<longrightarrow> A = [[1, 2], [3, 4]]"
    by blast
  ultimately show ?thesis by auto
qed

section \<open>The scenario of the specification\<close>

text \<open>
  Claim C9.  The three concrete computations of the specification, each on the matrix built
  by the constructor, at the default verbose level \<open>0\<close>.
\<close>

theorem concrete_scenario:
  "ebind (Matrix_init [[1, 2], [3, 4]]) (det 0) = Inr (- 2) \<and>
   ebind (Matrix_init [[0, 1], [1, 0]]) (ref 0) = Inr [[1, 0], [0, 1]] \<and>
   ebind (Matrix_init [[1, 2, 3], [4, 5, 6]]) (rref 0) = Inr [[1, 0, - 1], [0, 1, 2]]"
  by code_simp

section \<open>Basic facts about the primitives\<close>

lemma ebind_Inr [simp]: "ebind (Inr x) f = f x"
  by (simp add: ebind_def)

lemma ebind_Inl [simp]: "ebind (Inl e) f = Inl e"
  by (simp add: ebind_def)

lemma run_if_False [simp]: "run_if False m = Inr ()"
  by (simp add: run_if_def)

lemma run_if_True [simp]: "run_if True m = m"
  by (simp add: run_if_def)

lemma Row_getitem_int:
  "Row_getitem r (int p) = (if p < length r then Inr (r ! p) else Inl IndexError)"
  by (simp add: Row_getitem_def Let_def)

lemma Matrix_getitem_in [simp]: "i < length M \<Longrightarrow> Matrix_getitem M i = Inr (M ! i)"
  by (simp add: Matrix_getitem_def)

lemma Matrix_setitem_in [simp]: "i < length M \<Longrightarrow> Matrix_setitem M i r = Inr (M[i := r])"
  by (simp add: Matrix_setitem_def)

lemma scalar_div_nonzero [simp]: "b \<noteq> 0 \<Longrightarrow> scalar_div a b = Inr (a / b)"
  by (simp add: scalar_div_def)

lemma Row_truediv_nonzero [simp]:
  "b \<noteq> 0 \<Longrightarrow> Row_truediv r b = Inr (Row_mul r (1 / b))"
  by (simp add: Row_truediv_def)

lemma length_Row_mul [simp]: "length (Row_mul r c) = length r"
  by (simp add: Row_mul_def)

lemma length_Row_neg [simp]: "length (Row_neg r) = length r"
  by (simp add: Row_neg_def)

lemma length_comb_row [simp]: "length (comb_row k rj ri) = min (length rj) (length ri)"
  by (simp add: comb_row_def)

lemma nth_comb_row [simp]:
  "c < length rj \<Longrightarrow> c < length ri \<Longrightarrow> comb_row k rj ri ! c = rj ! c - ri ! c * k"
  by (simp add: comb_row_def)

lemma Row_add_comb:
  "length ri = length rj \<Longrightarrow> Row_add rj (Row_mul (Row_neg ri) a) = Inr (comb_row a rj ri)"
  by (auto simp: Row_add_def Row_mul_def Row_neg_def comb_row_def zip_map2 intro!: nth_equalityI)

lemma Row_add_comb_div:
  "length ri = length rj \<Longrightarrow>
   Row_add rj (Row_mul (Row_mul (Row_neg ri) a) (1 / pivot)) = Inr (comb_row (a * (1 / pivot)) rj ri)"
  by (auto simp: Row_add_def Row_mul_def Row_neg_def comb_row_def zip_map2 intro!: nth_equalityI)

subsection \<open>Rows of one length\<close>

lemma uniform_nth: "uniform n M \<Longrightarrow> i < length M \<Longrightarrow> length (M ! i) = n"
  by (simp add: uniform_def list_all_length)

lemma uniform_update: "uniform n M \<Longrightarrow> length r = n \<Longrightarrow> uniform n (M[i := r])"
  by (auto simp: uniform_def list_all_iff dest: set_update_subset_insert[THEN subsetD])

lemma valid_matrix_uniform: "valid_matrix A \<longleftrightarrow> A \<noteq> [] \<and> uniform (length (hd A)) A"
  by (simp add: valid_matrix_def uniform_def)

lemma uniform_print:
  "uniform n M \<Longrightarrow> 0 < length M \<Longrightarrow> 0 < n \<Longrightarrow> Matrix_print M = Inr ()"
  by (cases M) (auto simp: Matrix_print_def uniform_def)

lemma uniform_print_empty:
  "uniform 0 M \<Longrightarrow> Matrix_print M = Inl EmptySequence"
  by (auto simp: Matrix_print_def uniform_def list_all_iff)

subsection \<open>The inner loops compute \<open>elim_pure\<close>\<close>

lemma length_elim_pure [simp]: "length (elim_pure q p i js M) = length M"
  by (induction js arbitrary: M) simp_all

lemma uniform_elim_pure:
  "uniform n M \<Longrightarrow> i < length M \<Longrightarrow> \<forall>j\<in>set js. j < length M \<Longrightarrow>
   uniform n (elim_pure q p i js M)"
proof (induction js arbitrary: M)
  case Nil
  then show ?case by simp
next
  case (Cons j js)
  have "uniform n (M[j := comb_row ((M ! j ! p) * q) (M ! j) (M ! i)])"
    using Cons.prems by (intro uniform_update) (simp_all add: uniform_nth)
  then show ?case using Cons by simp
qed

lemma det_elim_pure:
  assumes "uniform n new" "i < length new" "i < n" "pivot \<noteq> 0" "\<forall>j\<in>set js. j < length new"
  shows "det_elim verbose pivot i new js = Inr (elim_pure (1 / pivot) i i js new)"
  using assms
proof (induction js arbitrary: new)
  case Nil
  then show ?case by simp
next
  case (Cons j js)
  let ?new' = "new[j := comb_row ((new ! j ! i) * (1 / pivot)) (new ! j) (new ! i)]"
  have j: "j < length new" using Cons.prems by simp
  have lj: "length (new ! j) = n" and li: "length (new ! i) = n"
    using Cons.prems j by (simp_all add: uniform_nth)
  have u: "uniform n ?new'"
    using Cons.prems by (intro uniform_update) (simp_all add: lj li)
  have pr: "Matrix_print ?new' = Inr ()"
    using u Cons.prems by (intro uniform_print[of n]) auto
  have IH: "det_elim verbose pivot i ?new' js = Inr (elim_pure (1 / pivot) i i js ?new')"
    using Cons.prems u by (intro Cons.IH) simp_all
  show ?case
    using j Cons.prems(2,3,4) lj li pr IH
    by (simp add: Row_getitem_int Row_add_comb_div run_if_def Let_def)
qed

lemma rref_elim_pure:
  assumes "uniform n new" "i < length new" "p < n" "pivot \<noteq> 0" "\<forall>j\<in>set js. j < length new"
  shows "rref_elim verbose (int p) pivot i new js = Inr (elim_pure (1 / pivot) p i js new)"
  using assms
proof (induction js arbitrary: new)
  case Nil
  then show ?case by simp
next
  case (Cons j js)
  let ?new' = "new[j := comb_row ((new ! j ! p) * (1 / pivot)) (new ! j) (new ! i)]"
  have j: "j < length new" using Cons.prems by simp
  have lj: "length (new ! j) = n" and li: "length (new ! i) = n"
    using Cons.prems j by (simp_all add: uniform_nth)
  have u: "uniform n ?new'"
    using Cons.prems by (intro uniform_update) (simp_all add: lj li)
  have pr: "Matrix_print ?new' = Inr ()"
    using u Cons.prems by (intro uniform_print[of n]) auto
  have IH: "rref_elim verbose (int p) pivot i ?new' js = Inr (elim_pure (1 / pivot) p i js ?new')"
    using Cons.prems u by (intro Cons.IH) simp_all
  show ?case
    using j Cons.prems(2,3,4) lj li pr IH
    by (simp add: Row_getitem_int Row_add_comb_div run_if_def Let_def)
qed

lemma ref_elim_pure:
  assumes "uniform n new" "i < length new" "p < n" "\<forall>j\<in>set js. j < length new"
  shows "ref_elim verbose (int p) i new js = Inr (elim_pure 1 p i js new)"
  using assms
proof (induction js arbitrary: new)
  case Nil
  then show ?case by simp
next
  case (Cons j js)
  let ?new' = "new[j := comb_row ((new ! j ! p) * 1) (new ! j) (new ! i)]"
  have j: "j < length new" using Cons.prems by simp
  have lj: "length (new ! j) = n" and li: "length (new ! i) = n"
    using Cons.prems j by (simp_all add: uniform_nth)
  have u: "uniform n ?new'"
    using Cons.prems by (intro uniform_update) (simp_all add: lj li)
  have pr: "Matrix_print ?new' = Inr ()"
    using u Cons.prems by (intro uniform_print[of n]) auto
  have IH: "ref_elim verbose (int p) i ?new' js = Inr (elim_pure 1 p i js ?new')"
    using Cons.prems u by (intro Cons.IH) simp_all
  show ?case
    using j Cons.prems(2,3) lj li pr IH
    by (simp add: Row_getitem_int Row_add_comb run_if_def Let_def)
qed

text \<open>What \<open>elim_pure\<close> leaves in each row, when row \<open>i\<close> is not among the targets.\<close>

lemma elim_pure_nth:
  assumes "i \<notin> set js" "distinct js" "\<forall>j\<in>set js. j < length M" "k < length M"
  shows "elim_pure q p i js M ! k =
     (if k \<in> set js then comb_row ((M ! k ! p) * q) (M ! k) (M ! i) else M ! k)"
  using assms
proof (induction js arbitrary: M)
  case Nil
  then show ?case by simp
next
  case (Cons j js)
  let ?M' = "M[j := comb_row ((M ! j ! p) * q) (M ! j) (M ! i)]"
  have ij: "i \<noteq> j" and jn: "j \<notin> set js" and j: "j < length M"
    using Cons.prems by auto
  have "elim_pure q p i js ?M' ! k =
     (if k \<in> set js then comb_row ((?M' ! k ! p) * q) (?M' ! k) (?M' ! i) else ?M' ! k)"
    using Cons.prems by (intro Cons.IH) auto
  then show ?case using ij jn j Cons.prems(4) by (auto simp: nth_list_update)
qed

subsection \<open>The pivot of a row\<close>

lemma pivot_scan_upt_eq:
  "pivot_scan r [a..<b] = int p \<longleftrightarrow>
     a \<le> p \<and> p < b \<and> r ! p \<noteq> 0 \<and> (\<forall>c. a \<le> c \<and> c < p \<longrightarrow> r ! c = 0)"
proof (induction "b - a" arbitrary: a)
  case 0
  then show ?case by auto
next
  case (Suc d)
  then have ab: "a < b" and d: "d = b - Suc a" by auto
  have up: "[a..<b] = a # [Suc a..<b]" using ab by (simp add: upt_conv_Cons)
  show ?case
  proof (cases "r ! a = 0")
    case True
    have "(\<forall>c. a \<le> c \<and> c < p \<longrightarrow> r ! c = 0) \<longleftrightarrow> (\<forall>c. Suc a \<le> c \<and> c < p \<longrightarrow> r ! c = 0)"
      using True by (metis Suc_leI le_neq_implies_less Suc_leD)
    moreover have "a \<le> p \<and> r ! p \<noteq> 0 \<longleftrightarrow> Suc a \<le> p \<and> r ! p \<noteq> 0"
      using True by (metis Suc_leI le_neq_implies_less Suc_leD)
    ultimately show ?thesis using Suc.hyps(1)[OF d] True by (simp add: up) blast
  next
    case False
    then show ?thesis using ab by (auto simp: up)
  qed
qed

lemma pivot_scan_upt_none:
  "pivot_scan r [a..<b] = - 1 \<longleftrightarrow> (\<forall>c. a \<le> c \<and> c < b \<longrightarrow> r ! c = 0)"
proof (induction "b - a" arbitrary: a)
  case 0
  then show ?case by auto
next
  case (Suc d)
  then have ab: "a < b" and d: "d = b - Suc a" by auto
  have up: "[a..<b] = a # [Suc a..<b]" using ab by (simp add: upt_conv_Cons)
  have "(\<forall>c. a \<le> c \<and> c < b \<longrightarrow> r ! c = 0) \<longleftrightarrow> r ! a = 0 \<and> (\<forall>c. Suc a \<le> c \<and> c < b \<longrightarrow> r ! c = 0)"
    using ab by (metis Suc_leI le_neq_implies_less Suc_leD order_refl)
  then show ?case using Suc.hyps(1)[OF d] by (simp add: up)
qed

lemma pivot_scan_range: "pivot_scan r js = - 1 \<or> (\<exists>p\<in>set js. pivot_scan r js = int p)"
  by (induction js) auto

lemma Row_pivot_eq:
  "Row_pivot r = int p \<longleftrightarrow> p < length r \<and> r ! p \<noteq> 0 \<and> (\<forall>c<p. r ! c = 0)"
  by (simp add: Row_pivot_def pivot_scan_upt_eq)

lemma Row_pivot_none: "Row_pivot r = - 1 \<longleftrightarrow> (\<forall>c<length r. r ! c = 0)"
  by (simp add: Row_pivot_def pivot_scan_upt_none)

lemma Row_pivot_cases:
  obtains (zero) "Row_pivot r = - 1" | (lead) p where "Row_pivot r = int p"
  using pivot_scan_range[of r "[0..<length r]"] unfolding Row_pivot_def by blast

lemma Row_is_zero_pivot: "Row_is_zero r \<longleftrightarrow> Row_pivot r = - 1"
  by (simp add: Row_pivot_none Row_is_zero_def list_all_length)

subsection \<open>The pivot chosen by \<open>ref\<close>\<close>

lemma ref_candidates:
  "zip (map Row_pivot (drop i (take (length M) M))) [i..<length M] =
     map (\<lambda>k. (Row_pivot (M ! k), k)) [i..<length M]"
  by (rule nth_equalityI) simp_all

lemma ref_pivots_eq:
  "ref_pivots M i =
     sort (filter (\<lambda>x. fst x \<noteq> - 1) (map (\<lambda>k. (Row_pivot (M ! k), k)) [i..<length M]))"
  unfolding ref_pivots_def ref_candidates by (simp add: filter_sort)

lemma set_ref_pivots:
  "set (ref_pivots M i) = {(Row_pivot (M ! k), k) | k. i \<le> k \<and> k < length M \<and> Row_pivot (M ! k) \<noteq> - 1}"
  unfolding ref_pivots_eq by auto

lemma ref_pivots_Nil:
  "ref_pivots M i = [] \<longleftrightarrow> (\<forall>k. i \<le> k \<and> k < length M \<longrightarrow> Row_pivot (M ! k) = - 1)"
proof -
  have "ref_pivots M i = [] \<longleftrightarrow> set (ref_pivots M i) = {}" by simp
  also have "\<dots> \<longleftrightarrow> (\<forall>k. i \<le> k \<and> k < length M \<longrightarrow> Row_pivot (M ! k) = - 1)"
    unfolding set_ref_pivots by blast
  finally show ?thesis .
qed

lemma sorted_hd_least: "sorted xs \<Longrightarrow> x \<in> set xs \<Longrightarrow> hd xs \<le> x"
  by (cases xs) auto

lemma ref_pivots_hd:
  assumes "ref_pivots M i \<noteq> []"
  obtains p pr where "ref_pivots M i ! 0 = (int p, pr)" "i \<le> pr" "pr < length M"
    "Row_pivot (M ! pr) = int p"
    "\<forall>k. i \<le> k \<and> k < length M \<and> Row_pivot (M ! k) \<noteq> - 1 \<longrightarrow>
       (int p, pr) \<le> (Row_pivot (M ! k), k)"
proof -
  have hd0: "ref_pivots M i ! 0 = hd (ref_pivots M i)"
    using assms by (simp add: hd_conv_nth)
  have "hd (ref_pivots M i) \<in> set (ref_pivots M i)" using assms by simp
  then obtain pr where pr: "hd (ref_pivots M i) = (Row_pivot (M ! pr), pr)" "i \<le> pr"
    "pr < length M" "Row_pivot (M ! pr) \<noteq> - 1"
    unfolding set_ref_pivots by blast
  then obtain p where p: "Row_pivot (M ! pr) = int p"
    by (cases "M ! pr" rule: Row_pivot_cases) auto
  have srt: "sorted (ref_pivots M i)" unfolding ref_pivots_eq by simp
  have least: "(int p, pr) \<le> (Row_pivot (M ! k), k)"
    if "i \<le> k" "k < length M" "Row_pivot (M ! k) \<noteq> - 1" for k
  proof -
    have "(Row_pivot (M ! k), k) \<in> set (ref_pivots M i)"
      unfolding set_ref_pivots using that by blast
    from sorted_hd_least[OF srt this] show ?thesis by (simp add: pr(1) p)
  qed
  then have "\<forall>k. i \<le> k \<and> k < length M \<and> Row_pivot (M ! k) \<noteq> - 1 \<longrightarrow>
       (int p, pr) \<le> (Row_pivot (M ! k), k)"
    by blast
  then show ?thesis using that[OF _ pr(2,3) p] hd0 pr(1) p by simp
qed

subsection \<open>The outer loop of \<open>ref\<close> computes \<open>ref_pure\<close>\<close>

lemma swap_rows_in:
  "i < length M \<Longrightarrow> j < length M \<Longrightarrow> swap_rows M i j = Inr ((M[i := M ! j])[j := M ! i])"
  by (simp add: swap_rows_def)

lemma uniform_swap:
  "uniform n M \<Longrightarrow> i < length M \<Longrightarrow> j < length M \<Longrightarrow> uniform n ((M[i := M ! j])[j := M ! i])"
  by (intro uniform_update) (simp_all add: uniform_nth)

lemma length_ref_step_pure [simp]: "length (ref_step_pure i M) = length M"
  by (simp add: ref_step_pure_def Let_def)

lemma uniform_ref_step_pure:
  assumes "uniform n M" "i < length M"
  shows "uniform n (ref_step_pure i M)"
proof (cases "ref_pivots M i = []")
  case True
  then show ?thesis using assms by (simp add: ref_step_pure_def)
next
  case False
  then obtain p pr where h: "ref_pivots M i ! 0 = (int p, pr)" "i \<le> pr" "pr < length M"
    by (rule ref_pivots_hd)
  let ?M1 = "(M[i := M ! pr])[pr := M ! i]"
  let ?M2 = "?M1[i := Row_mul (?M1 ! i) (1 / (M ! pr ! p))]"
  have u1: "uniform n ?M1" using assms h by (intro uniform_swap)
  have l1: "length (?M1 ! i) = n" using assms(2) by (intro uniform_nth[OF u1]) simp
  have "uniform n ?M2"
    by (rule uniform_update[OF u1]) (simp add: l1)
  then have "uniform n (elim_pure 1 p i [i + 1..<length M] ?M2)"
    using assms(2) by (intro uniform_elim_pure) simp_all
  then show ?thesis using False h(1) by (simp add: ref_step_pure_def Let_def)
qed

lemma ref_loop_step:
  assumes "uniform n M" "i < length M"
  shows "ref_loop verbose M (i # rest) = ref_loop verbose (ref_step_pure i M) rest"
proof (cases "ref_pivots M i = []")
  case True
  then show ?thesis by (simp add: ref_step_pure_def)
next
  case False
  then obtain p pr where h: "ref_pivots M i ! 0 = (int p, pr)" "i \<le> pr" "pr < length M"
    "Row_pivot (M ! pr) = int p"
    by (rule ref_pivots_hd)
  define a where "a = M ! pr ! p"
  define M1 where "M1 = (M[i := M ! pr])[pr := M ! i]"
  define M2 where "M2 = M1[i := Row_mul (M1 ! i) (1 / a)]"
  define M3 where "M3 = elim_pure 1 p i [i + 1..<length M] M2"
  have len: "length M1 = length M" "length M2 = length M" "length M3 = length M"
    by (simp_all add: M1_def M2_def M3_def)
  have pn: "p < length (M ! pr)" and a: "a \<noteq> 0"
    using h(4) by (simp_all add: Row_pivot_eq a_def)
  then have p: "p < n" using assms(1) h(3) by (simp add: uniform_nth)
  have e: "entry M pr (int p) = Inr a"
    using h(3) pn by (simp add: entry_def Row_getitem_int a_def)
  have sw: "swap_rows M i pr = Inr M1"
    unfolding M1_def using assms(2) h(3) by (rule swap_rows_in)
  have u1: "uniform n M1" unfolding M1_def using assms h by (intro uniform_swap)
  have l1: "length (M1 ! i) = n" using assms(2) len by (intro uniform_nth[OF u1]) simp
  have u2: "uniform n M2"
    unfolding M2_def by (rule uniform_update[OF u1]) (simp add: l1)
  have u3: "uniform n M3"
    unfolding M3_def using u2 assms(2) len by (intro uniform_elim_pure) simp_all
  have ne: "0 < length M" using assms(2) by auto
  have p1: "Matrix_print M1 = Inr ()"
    using u1 ne p len by (intro uniform_print[of n]) simp_all
  have p2: "Matrix_print M2 = Inr ()"
    using u2 ne p len by (intro uniform_print[of n]) simp_all
  have p3: "Matrix_print M3 = Inr ()"
    using u3 ne p len by (intro uniform_print[of n]) simp_all
  have el: "ref_elim verbose (int p) i M2 [Suc i..<length M2] = Inr M3"
    using ref_elim_pure[OF u2, of i p "[i + 1..<length M2]" verbose] assms(2) p len
    by (simp add: M3_def)
  have step: "ref_step_pure i M = M3"
    using False h(1) by (simp add: ref_step_pure_def Let_def M3_def M2_def M1_def a_def)
  have g: "Matrix_getitem M1 i = Inr (M1 ! i)" using assms(2) len by simp
  have st: "Matrix_setitem M1 i (Row_mul (M1 ! i) (1 / a)) = Inr M2"
    using assms(2) len by (simp add: M2_def)
  have pivots: "length (ref_pivots M i) \<noteq> 0" using False by simp
  have body: "ref_loop verbose M (i # rest) =
      ebind (entry M pr (int p)) (\<lambda>pivot.
      ebind (swap_rows M i pr) (\<lambda>new1.
      ebind (run_if (verbose > 1 \<and> pr \<noteq> i) (Matrix_print new1)) (\<lambda>_.
      ebind (Matrix_getitem new1 i) (\<lambda>ri.
      ebind (Row_truediv ri pivot) (\<lambda>ri'.
      ebind (Matrix_setitem new1 i ri') (\<lambda>new2.
      ebind (run_if (verbose > 1 \<and> pivot \<noteq> 1)
               (ebind (scalar_div 1 pivot) (\<lambda>_. Matrix_print new2))) (\<lambda>_.
      ebind (ref_elim verbose (int p) i new2 [i + 1..<length new2]) (\<lambda>new3.
      ebind (run_if (verbose = 1) (Matrix_print new3)) (\<lambda>_.
      ref_loop verbose new3 rest)))))))))"
    by (simp only: ref_loop.simps Let_def pivots if_False h(1) prod.case) simp
  show ?thesis
    unfolding step body
    by (simp add: e sw p1 g a st p2 el p3 run_if_def)
qed

lemma ref_loop_pure:
  assumes "uniform n M" "\<forall>i\<in>set js. i < length M"
  shows "ref_loop verbose M js = Inr (fold ref_step_pure js M)"
  using assms
proof (induction js arbitrary: M)
  case Nil
  then show ?case by simp
next
  case (Cons i js)
  have "ref_loop verbose M (i # js) = ref_loop verbose (ref_step_pure i M) js"
    using Cons.prems by (intro ref_loop_step[of n]) simp_all
  also have "\<dots> = Inr (fold ref_step_pure js (ref_step_pure i M))"
    using Cons.prems by (intro Cons.IH uniform_ref_step_pure) simp_all
  finally show ?case by simp
qed

lemma length_fold_ref_step [simp]: "length (fold ref_step_pure js M) = length M"
  by (induction js arbitrary: M) simp_all

lemma uniform_fold_ref_step:
  "uniform n M \<Longrightarrow> \<forall>i\<in>set js. i < length M \<Longrightarrow> uniform n (fold ref_step_pure js M)"
  by (induction js arbitrary: M) (simp_all add: uniform_ref_step_pure)

lemma Matrix_deepcopy_valid: "valid_matrix A \<Longrightarrow> Matrix_deepcopy A = Inr A"
  by (simp add: Matrix_deepcopy_def Matrix_init_valid)

lemma valid_matrix_print:
  "valid_matrix A \<Longrightarrow>
   Matrix_print A = (if length (hd A) = 0 then Inl EmptySequence else Inr ())"
  using uniform_print[of "length (hd A)" A] uniform_print_empty[of A]
  by (auto simp: valid_matrix_uniform)

lemma ref_eq:
  assumes "valid_matrix A"
  shows "ref verbose A =
     (if 0 < verbose \<and> length (hd A) = 0 then Inl EmptySequence else Inr (ref_pure A))"
proof -
  have u: "uniform (length (hd A)) A" using assms by (simp add: valid_matrix_uniform)
  have "ref_loop verbose A [0..<length A] = Inr (ref_pure A)"
    unfolding ref_pure_def using u by (intro ref_loop_pure) simp_all
  then show ?thesis
    using assms by (simp add: ref_def Matrix_deepcopy_valid valid_matrix_print run_if_def)
qed

lemma length_ref_pure [simp]: "length (ref_pure A) = length A"
  by (simp add: ref_pure_def)

lemma uniform_ref_pure: "uniform n A \<Longrightarrow> uniform n (ref_pure A)"
  unfolding ref_pure_def by (intro uniform_fold_ref_step) simp_all

subsection \<open>One iteration of \<open>ref\<close> settles one more row\<close>

lemma nth_Row_mul [simp]: "c < length r \<Longrightarrow> Row_mul r k ! c = r ! c * k"
  by (simp add: Row_mul_def)

lemma unit_pivot_Row_pivot: "unit_pivot M r p \<Longrightarrow> Row_pivot (M ! r) = int p"
  by (simp add: unit_pivot_def Row_pivot_eq)

text \<open>The rows after one iteration that found a pivot \<open>(p, pr)\<close>.\<close>

lemma ref_step_rows:
  assumes u: "uniform n M" and i: "i < length M"
    and h: "ref_pivots M i ! 0 = (int p, pr)" "ref_pivots M i \<noteq> []" "i \<le> pr" "pr < length M"
    and k: "k < length M"
  shows "ref_step_pure i M ! k =
     (if k < i then M ! k
      else if k = i then Row_mul (M ! pr) (1 / (M ! pr ! p))
      else comb_row ((if k = pr then M ! i else M ! k) ! p)
             (if k = pr then M ! i else M ! k) (Row_mul (M ! pr) (1 / (M ! pr ! p))))"
proof -
  define a where "a = M ! pr ! p"
  define M1 where "M1 = (M[i := M ! pr])[pr := M ! i]"
  define M2 where "M2 = M1[i := Row_mul (M1 ! i) (1 / a)]"
  have len: "length M1 = length M" "length M2 = length M"
    by (simp_all add: M1_def M2_def)
  have step: "ref_step_pure i M = elim_pure 1 p i [i + 1..<length M] M2"
    using h(1,2) by (simp add: ref_step_pure_def Let_def M2_def M1_def a_def)
  have M1i: "M1 ! i = M ! pr"
    using i h(4) by (simp add: M1_def nth_list_update)
  have M1k: "M1 ! k = (if k = pr then M ! i else M ! k)" if "k \<noteq> i"
    using that k h(4) by (simp add: M1_def nth_list_update)
  have M2i: "M2 ! i = Row_mul (M ! pr) (1 / a)"
    using i len by (simp add: M2_def M1i)
  have M2k: "M2 ! k = (if k = pr then M ! i else M ! k)" if "k \<noteq> i"
    using that by (simp add: M2_def M1k)
  have "elim_pure 1 p i [i + 1..<length M] M2 ! k =
     (if k \<in> set [i + 1..<length M] then comb_row ((M2 ! k ! p) * 1) (M2 ! k) (M2 ! i) else M2 ! k)"
    using k len by (intro elim_pure_nth) simp_all
  then show ?thesis
    unfolding step using k i M2i M2k h(3) by (auto simp: a_def)
qed

lemma ref_step_inv:
  assumes u: "uniform n M" and i: "i < length M" and inv: "ref_inv i M"
  shows "ref_inv (Suc i) (ref_step_pure i M)"
proof (cases "ref_pivots M i = []")
  case True
  then have "zeros_from M i" by (simp add: ref_pivots_Nil zeros_from_def)
  moreover have "ref_step_pure i M = M" using True by (simp add: ref_step_pure_def)
  ultimately show ?thesis using inv by (auto simp: ref_inv_def less_Suc_eq)
next
  case False
  then obtain p pr where h: "ref_pivots M i ! 0 = (int p, pr)" "i \<le> pr" "pr < length M"
    "Row_pivot (M ! pr) = int p"
    and least: "\<forall>k. i \<le> k \<and> k < length M \<and> Row_pivot (M ! k) \<noteq> - 1 \<longrightarrow>
       (int p, pr) \<le> (Row_pivot (M ! k), k)"
    by (rule ref_pivots_hd)
  define a where "a = M ! pr ! p"
  define N where "N = ref_step_pure i M"
  define top where "top = Row_mul (M ! pr) (1 / a)"
  define sw where "sw = (\<lambda>k. if k = pr then M ! i else M ! k)"
  have lenN: "length N = length M" by (simp add: N_def)
  have ln: "length (M ! k) = n" if "k < length M" for k
    using u that by (rule uniform_nth)
  have pn: "p < n" and a: "a \<noteq> 0" and before: "\<And>c. c < p \<Longrightarrow> M ! pr ! c = 0"
    using h(4) ln[OF h(3)] by (simp_all add: Row_pivot_eq a_def)
  have rows: "N ! k = (if k < i then M ! k else if k = i then top else comb_row (sw k ! p) (sw k) top)"
    if "k < length M" for k
    unfolding N_def top_def sw_def a_def
    using ref_step_rows[OF u i h(1) False h(2,3) that] by simp
  have ltop: "length top = n" by (simp add: top_def ln[OF h(3)])
  have lsw: "length (sw k) = n" if "k < length M" for k
    using that i by (simp add: sw_def ln)
  have topc: "top ! c = M ! pr ! c * (1 / a)" if "c < n" for c
    using that by (simp add: top_def ln[OF h(3)])
  have top_p: "top ! p = 1" using a pn by (simp add: topc a_def)
  text \<open>A column that is zero in all rows from \<open>i\<close> on stays so.\<close>
  have keep: "N ! k ! c = 0"
    if z: "\<And>s. i \<le> s \<Longrightarrow> s < length M \<Longrightarrow> M ! s ! c = 0" and c: "c < n"
      and k: "i \<le> k" "k < length M" for k c
  proof -
    have t: "top ! c = 0" using z[OF h(2,3)] c by (simp add: topc)
    have s: "sw k ! c = 0" using z[of k] z[of i] k i by (simp add: sw_def)
    show ?thesis using rows[OF k(2)] k c t s ltop lsw[OF k(2)] by (simp add: nth_comb_row)
  qed
  text \<open>Below row \<open>i\<close>, column \<open>p\<close> is cleared.\<close>
  have cleared: "N ! k ! p = 0" if k: "i < k" "k < length M" for k
    using rows[OF k(2)] k pn top_p ltop lsw[OF k(2)] by (simp add: nth_comb_row)
  text \<open>Columns before \<open>p\<close> are zero from row \<open>i\<close> on, since \<open>p\<close> is the least pivot.\<close>
  have lowz: "M ! s ! c = 0" if "c < p" "i \<le> s" "s < length M" for s c
  proof (cases "M ! s" rule: Row_pivot_cases)
    case zero
    then show ?thesis using that pn ln[OF that(3)] by (simp add: Row_pivot_none)
  next
    case (lead q)
    have "Row_pivot (M ! s) \<noteq> - 1" using lead by simp
    then have "(int p, pr) \<le> (Row_pivot (M ! s), s)" using least that(2,3) by blast
    then have "(int p, pr) \<le> (int q, s)" using lead by simp
    then have "p \<le> q" by (auto simp: less_eq_prod_simp)
    then show ?thesis using lead that(1) by (simp add: Row_pivot_eq)
  qed
  have new_row: "unit_pivot N i p"
    unfolding unit_pivot_def
  proof (intro conjI allI impI)
    show "p < length (N ! i)" using rows[OF i] ltop pn by simp
    show "N ! i ! p = 1" using rows[OF i] top_p by simp
    show "N ! i ! c = 0" if "c < p" for c
      using rows[OF i] before[OF that] topc[of c] that pn by simp
    show "N ! s ! c = 0" if "i < s \<and> s < length N" "c \<le> p" for s c
    proof (cases "c = p")
      case True
      then show ?thesis using cleared[of s] that lenN by simp
    next
      case False
      then have cp: "c < p" using that(2) by simp
      show ?thesis using keep[of c s] lowz[OF cp] cp pn that(1) lenN by simp
    qed
  qed
  have old_rows: "zeros_from N r \<or> (\<exists>q. unit_pivot N r q)" if r: "r < i" for r
  proof -
    have "r \<le> pr \<and> pr < length M \<and> Row_pivot (M ! pr) \<noteq> - 1" using h r by simp
    then have "\<not> zeros_from M r" unfolding zeros_from_def by blast
    then obtain q where q: "unit_pivot M r q" using inv r by (auto simp: ref_inv_def)
    have ri: "r < length M" using r i by simp
    have qn: "q < n" using q ln[OF ri] by (simp add: unit_pivot_def)
    have "unit_pivot N r q"
      unfolding unit_pivot_def
    proof (intro conjI allI impI)
      show "q < length (N ! r)" using rows[OF ri] r q by (simp add: unit_pivot_def)
      show "N ! r ! q = 1" using rows[OF ri] r q by (simp add: unit_pivot_def)
      show "N ! r ! c = 0" if "c < q" for c
        using rows[OF ri] r q that by (simp add: unit_pivot_def)
      show "N ! s ! c = 0" if s: "r < s \<and> s < length N" and c: "c \<le> q" for s c
      proof (cases "s < i")
        case True
        then show ?thesis using rows[of s] s c q lenN by (simp add: unit_pivot_def)
      next
        case False
        have "M ! t ! c = 0" if "i \<le> t" "t < length M" for t
          using q that r c by (simp add: unit_pivot_def)
        then show ?thesis using keep[of c s] False s c qn lenN by simp
      qed
    qed
    then show ?thesis by blast
  qed
  show ?thesis
    unfolding ref_inv_def N_def[symmetric]
    using old_rows new_row by (auto simp: less_Suc_eq)
qed

subsection \<open>The result of \<open>ref\<close> is in echelon form\<close>

lemma fold_ref_step_inv:
  assumes "uniform n M" "b \<le> length M"
  shows "ref_inv b (fold ref_step_pure [0..<b] M)"
  using assms(2)
proof (induction b)
  case 0
  then show ?case by (simp add: ref_inv_def)
next
  case (Suc b)
  let ?N = "fold ref_step_pure [0..<b] M"
  have "uniform n ?N" using assms(1) Suc.prems by (intro uniform_fold_ref_step) simp_all
  moreover have "b < length ?N" using Suc.prems by simp
  moreover have "ref_inv b ?N" using Suc by simp
  ultimately have "ref_inv (Suc b) (ref_step_pure b ?N)" by (rule ref_step_inv)
  then show ?case by simp
qed

lemma ref_pure_inv: "uniform n M \<Longrightarrow> ref_inv (length M) (ref_pure M)"
  unfolding ref_pure_def by (rule fold_ref_step_inv) simp_all

text \<open>Settled rows: the pivots increase strictly, which gives the postcondition.\<close>

lemma ref_inv_zero_below:
  assumes "ref_inv (length R) R" "i < j" "j < length R" "Row_pivot (R ! i) = - 1"
  shows "Row_pivot (R ! j) = - 1"
proof -
  have "zeros_from R i \<or> (\<exists>p. unit_pivot R i p)"
    using assms by (simp add: ref_inv_def)
  then show ?thesis
  proof
    assume "zeros_from R i"
    then show ?thesis using assms(2,3) by (simp add: zeros_from_def)
  next
    assume "\<exists>p. unit_pivot R i p"
    then show ?thesis using assms(4) by (auto dest: unit_pivot_Row_pivot)
  qed
qed

lemma ref_inv_unit:
  assumes "ref_inv (length R) R" "i < length R" "Row_pivot (R ! i) \<noteq> - 1"
  shows "unit_pivot R i (nat (Row_pivot (R ! i)))"
proof -
  have "zeros_from R i \<or> (\<exists>p. unit_pivot R i p)"
    using assms by (simp add: ref_inv_def)
  then show ?thesis
  proof
    assume "zeros_from R i"
    then show ?thesis using assms(2,3) by (simp add: zeros_from_def)
  next
    assume "\<exists>p. unit_pivot R i p"
    then obtain p where p: "unit_pivot R i p" ..
    then show ?thesis by (simp add: unit_pivot_Row_pivot)
  qed
qed

lemma ref_inv_strict:
  assumes "ref_inv (length R) R" "i < j" "j < length R"
    "Row_pivot (R ! i) \<noteq> - 1" "Row_pivot (R ! j) \<noteq> - 1"
  shows "Row_pivot (R ! i) < Row_pivot (R ! j)"
proof -
  define p where "p = nat (Row_pivot (R ! i))"
  have up: "unit_pivot R i p" unfolding p_def using assms by (intro ref_inv_unit) simp_all
  then have pi: "Row_pivot (R ! i) = int p" by (rule unit_pivot_Row_pivot)
  obtain q where q: "Row_pivot (R ! j) = int q"
    using assms(5) by (cases "R ! j" rule: Row_pivot_cases) auto
  have "R ! j ! q \<noteq> 0" using q by (simp add: Row_pivot_eq)
  moreover have "\<forall>c\<le>p. R ! j ! c = 0" using up assms(2,3) by (simp add: unit_pivot_def)
  ultimately have "p < q" by (meson not_le)
  then show ?thesis by (simp add: pi q)
qed

lemma ref_inv_post:
  assumes "ref_inv (length R) R"
  shows "ref_post R"
  unfolding ref_post_def
proof (intro conjI ballI impI)
  fix i j
  assume ij: "i \<in> set [0..<length R]" "j \<in> set [0..<length R]" "i < j"
  then have j: "j < length R" by simp
  show "Row_is_zero (R ! j)" if "Row_is_zero (R ! i)"
    using ref_inv_zero_below[OF assms ij(3) j] that by (simp add: Row_is_zero_pivot)
  show "Row_pivot (R ! i) \<le> Row_pivot (R ! j)"
    if "\<not> Row_is_zero (R ! i) \<and> \<not> Row_is_zero (R ! j)"
    using ref_inv_strict[OF assms ij(3) j] that by (simp add: Row_is_zero_pivot)
next
  fix i
  assume i: "i \<in> set [0..<length R]" and nz: "\<not> Row_is_zero (R ! i)"
  have "unit_pivot R i (nat (Row_pivot (R ! i)))"
    using assms i nz by (intro ref_inv_unit) (simp_all add: Row_is_zero_pivot)
  then show "R ! i ! nat (Row_pivot (R ! i)) = 1" by (simp add: unit_pivot_def)
qed

lemma valid_matrix_cols: "valid_matrix A \<Longrightarrow> uniform (length (hd A)) A"
  by (simp add: valid_matrix_uniform)

text \<open>
  Claim C2.  On every valid matrix \<^verbatim>\<open>ref\<close> returns (at the default verbose level), and at
  every verbose level whatever it returns is in row-echelon form: zero rows below the
  non-zero rows, pivot columns weakly increasing, every leading entry exactly \<open>1\<close>.
\<close>

theorem ref_echelon:
  assumes "valid_matrix A"
  shows "(\<exists>R. ref 0 A = Inr R \<and> ref_post R) \<and>
         (\<forall>verbose R. ref verbose A = Inr R \<longrightarrow> ref_post R)"
proof -
  have "ref_post (ref_pure A)"
    using assms by (intro ref_inv_post) (simp add: ref_pure_inv[OF valid_matrix_cols, simplified])
  then show ?thesis using assms by (simp add: ref_eq)
qed

theorem ref_echelon_witness:
  "valid_matrix [[0, 2, 4], [3, 3, 3], [1, 1, 1]] \<and>
   ref 0 [[0, 2, 4], [3, 3, 3], [1, 1, 1]] = Inr [[1, 1, 1], [0, 1, 2], [0, 0, 0]] \<and>
   ref_post [[1, 1, 1], [0, 1, 2], [0, 0, 0]]"
proof -
  have v: "valid_matrix [[0, 2, 4], [3, 3, 3], [1, 1, 1]]" by code_simp
  have e: "ref 0 [[0, 2, 4], [3, 3, 3], [1, 1, 1]] = Inr [[1, 1, 1], [0, 1, 2], [0, 0, 0]]"
    by code_simp
  from ref_echelon[OF v] e v show ?thesis by simp
qed

subsection \<open>The upward pass of \<open>rref\<close> computes \<open>rref_up\<close>\<close>

lemma length_rref_step_pure [simp]: "length (rref_step_pure i M) = length M"
  by (simp add: rref_step_pure_def Let_def)

lemma uniform_rref_step_pure:
  "uniform n M \<Longrightarrow> i < length M \<Longrightarrow> uniform n (rref_step_pure i M)"
  by (simp add: rref_step_pure_def Let_def uniform_elim_pure)

lemma rref_loop_step:
  assumes "uniform n M" "i < length M"
  shows "rref_loop verbose M (i # rest) = rref_loop verbose (rref_step_pure i M) rest"
proof (cases "M ! i" rule: Row_pivot_cases)
  case zero
  then show ?thesis using assms(2) by (simp add: rref_step_pure_def)
next
  case (lead p)
  define a where "a = M ! i ! p"
  define N where "N = elim_pure (1 / a) p i [0..<i] M"
  have pl: "p < length (M ! i)" and a: "a \<noteq> 0"
    using lead by (simp_all add: Row_pivot_eq a_def)
  then have p: "p < n" using assms by (simp add: uniform_nth)
  have g: "Row_getitem (M ! i) (int p) = Inr a"
    using pl by (simp add: Row_getitem_int a_def)
  have el: "rref_elim verbose (int p) a i M [0..<i] = Inr N"
    unfolding N_def using assms p a by (intro rref_elim_pure[of n]) simp_all
  have "uniform n N" unfolding N_def using assms by (intro uniform_elim_pure) simp_all
  then have pr: "Matrix_print N = Inr ()"
    using assms(2) p by (intro uniform_print[of n]) (auto simp: N_def)
  have step: "rref_step_pure i M = N"
    using lead by (simp add: rref_step_pure_def N_def a_def)
  have ne: "int p \<noteq> - 1" by simp
  have body: "rref_loop verbose M (i # rest) =
      ebind (Row_getitem (M ! i) (int p)) (\<lambda>pivot.
      ebind (rref_elim verbose (int p) pivot i M [0..<i]) (\<lambda>new1.
      ebind (run_if (verbose = 1) (Matrix_print new1)) (\<lambda>_.
      rref_loop verbose new1 rest)))"
    using assms(2) by (simp only: rref_loop.simps Matrix_getitem_in ebind_Inr Let_def lead ne if_False)
  show ?thesis unfolding step body by (simp add: g el pr run_if_def)
qed

lemma rref_loop_pure:
  assumes "uniform n M" "\<forall>i\<in>set js. i < length M"
  shows "rref_loop verbose M js = Inr (fold rref_step_pure js M)"
  using assms
proof (induction js arbitrary: M)
  case Nil
  then show ?case by simp
next
  case (Cons i js)
  have "rref_loop verbose M (i # js) = rref_loop verbose (rref_step_pure i M) js"
    using Cons.prems by (intro rref_loop_step[of n]) simp_all
  also have "\<dots> = Inr (fold rref_step_pure js (rref_step_pure i M))"
    using Cons.prems by (intro Cons.IH uniform_rref_step_pure) simp_all
  finally show ?case by simp
qed

lemma length_fold_rref_step [simp]: "length (fold rref_step_pure js M) = length M"
  by (induction js arbitrary: M) simp_all

lemma uniform_fold_rref_step:
  "uniform n M \<Longrightarrow> \<forall>i\<in>set js. i < length M \<Longrightarrow> uniform n (fold rref_step_pure js M)"
  by (induction js arbitrary: M) (simp_all add: uniform_rref_step_pure)

lemma length_rref_pure [simp]: "length (rref_pure A) = length A"
  by (simp add: rref_pure_def rref_up_def)

lemma uniform_rref_pure: "uniform n A \<Longrightarrow> uniform n (rref_pure A)"
  unfolding rref_pure_def rref_up_def
  by (intro uniform_fold_rref_step uniform_ref_pure) simp_all

lemma rref_eq:
  assumes "valid_matrix A"
  shows "rref verbose A =
     (if 0 < verbose \<and> length (hd A) = 0 then Inl EmptySequence else Inr (rref_pure A))"
proof -
  have u: "uniform (length (hd A)) (ref_pure A)"
    using assms by (intro uniform_ref_pure valid_matrix_cols)
  have "rref_loop verbose (ref_pure A) [1..<length (ref_pure A)] = Inr (rref_pure A)"
    unfolding rref_pure_def rref_up_def using u by (intro rref_loop_pure) simp_all
  then show ?thesis using assms by (simp add: rref_def ref_eq)
qed

subsection \<open>The upward pass clears the pivot columns\<close>

lemma rref_step_rows:
  assumes "Row_pivot (M ! i) = int p" "i < length M" "k < length M"
  shows "rref_step_pure i M ! k =
     (if k < i then comb_row ((M ! k ! p) * (1 / (M ! i ! p))) (M ! k) (M ! i) else M ! k)"
proof -
  have "elim_pure (1 / (M ! i ! p)) p i [0..<i] M ! k =
     (if k \<in> set [0..<i] then comb_row ((M ! k ! p) * (1 / (M ! i ! p))) (M ! k) (M ! i) else M ! k)"
    using assms(2,3) by (intro elim_pure_nth) simp_all
  then show ?thesis using assms(1) by (simp add: rref_step_pure_def)
qed

lemma rref_step_inv:
  assumes u: "uniform n M" and i: "i < length M" and inv: "rref_inv i M"
  shows "rref_inv (Suc i) (rref_step_pure i M)"
proof (cases "M ! i" rule: Row_pivot_cases)
  case zero
  then have same: "rref_step_pure i M = M" by (simp add: rref_step_pure_def)
  have "\<not> unit_pivot M i p" for p using zero by (auto dest: unit_pivot_Row_pivot)
  then show ?thesis using inv unfolding same rref_inv_def by (auto simp: less_Suc_eq)
next
  case (lead p)
  define N where "N = rref_step_pure i M"
  have rinv: "ref_inv (length M) M"
    and clr: "\<And>r q j. r < i \<Longrightarrow> unit_pivot M r q \<Longrightarrow> j < r \<Longrightarrow> M ! j ! q = 0"
    using inv by (auto simp: rref_inv_def)
  have lenN: "length N = length M" by (simp add: N_def)
  have ln: "length (M ! k) = n" if "k < length M" for k
    using u that by (rule uniform_nth)
  have up: "unit_pivot M i p"
    using ref_inv_unit[OF rinv i] lead by simp
  then have pn: "p < n" and one: "M ! i ! p = 1" and before: "\<And>c. c < p \<Longrightarrow> M ! i ! c = 0"
    using ln[OF i] by (simp_all add: unit_pivot_def)
  have rows: "N ! k = (if k < i then comb_row (M ! k ! p) (M ! k) (M ! i) else M ! k)"
    if "k < length M" for k
    unfolding N_def using rref_step_rows[OF lead i that] one by simp
  have lN: "length (N ! k) = n" if "k < length M" for k
    using rows[OF that] ln[OF that] ln[OF i] by simp
  have low: "N ! k ! c = M ! k ! c" if "c < p" "k < length M" for k c
    using rows[OF that(2)] that pn before[OF that(1)] ln[OF that(2)] ln[OF i]
    by (simp add: nth_comb_row)
  have col: "N ! k ! p = 0" if "k < i" for k
  proof -
    have k: "k < length M" using that i by simp
    show ?thesis using rows[OF k] that pn one ln[OF k] ln[OF i] by (simp add: nth_comb_row)
  qed
  have same: "N ! k = M ! k" if "i \<le> k" "k < length M" for k
    using rows[OF that(2)] that(1) by simp
  text \<open>The pivots of the rows above \<open>i\<close> lie strictly to the left of \<open>p\<close>.\<close>
  have left: "q < p" if "r < i" "unit_pivot M r q" for r q
  proof -
    have "\<forall>c\<le>q. M ! i ! c = 0" using that i by (simp add: unit_pivot_def)
    then show ?thesis using one by (metis not_le zero_neq_one)
  qed
  have above: "unit_pivot N r q" if r: "r < i" and q: "unit_pivot M r q" for r q
    unfolding unit_pivot_def
  proof (intro conjI allI impI)
    have rl: "r < length M" using r i by simp
    have qp: "q < p" using left[OF r q] .
    show "q < length (N ! r)" using lN[OF rl] qp pn by simp
    show "N ! r ! q = 1" using low[OF qp rl] q by (simp add: unit_pivot_def)
    show "N ! r ! c = 0" if "c < q" for c
      using low[of c r] rl that qp q by (simp add: unit_pivot_def)
    show "N ! s ! c = 0" if "r < s \<and> s < length N" "c \<le> q" for s c
      using low[of c s] that qp q lenN by (simp add: unit_pivot_def)
  qed
  have below: "unit_pivot N r q" if r: "i \<le> r" "r < length M" and q: "unit_pivot M r q" for r q
    unfolding unit_pivot_def
  proof (intro conjI allI impI)
    show "q < length (N ! r)" using same[OF r] q by (simp add: unit_pivot_def)
    show "N ! r ! q = 1" using same[OF r] q by (simp add: unit_pivot_def)
    show "N ! r ! c = 0" if "c < q" for c
      using same[OF r] q that by (simp add: unit_pivot_def)
    show "N ! s ! c = 0" if "r < s \<and> s < length N" "c \<le> q" for s c
      using same[of s] that r q lenN by (simp add: unit_pivot_def)
  qed
  have echelon: "ref_inv (length N) N"
    unfolding ref_inv_def lenN
  proof (intro allI impI)
    fix r assume r: "r < length M"
    have M: "zeros_from M r \<or> (\<exists>q. unit_pivot M r q)"
      using rinv r by (simp add: ref_inv_def)
    show "zeros_from N r \<or> (\<exists>q. unit_pivot N r q)"
    proof (cases "r < i")
      case True
      have "r \<le> i \<and> i < length M \<and> Row_pivot (M ! i) \<noteq> - 1" using True i lead by simp
      then have "\<not> zeros_from M r" unfolding zeros_from_def by blast
      then show ?thesis using M above[OF True] by blast
    next
      case False
      show ?thesis using M
      proof
        assume "zeros_from M r"
        then have "zeros_from N r" using same False by (simp add: zeros_from_def lenN)
        then show ?thesis ..
      next
        assume "\<exists>q. unit_pivot M r q"
        then show ?thesis using below[of r] False r by auto
      qed
    qed
  qed
  have cleared: "N ! j ! q = 0" if r: "r < Suc i" and q: "unit_pivot N r q" and j: "j < r" for r q j
  proof (cases "r = i")
    case True
    have "Row_pivot (N ! i) = int q" using q True by (auto dest: unit_pivot_Row_pivot)
    then have "q = p" using same[of i] i lead by simp
    then show ?thesis using col[of j] j True by simp
  next
    case False
    then have ri: "r < i" using r by simp
    have rl: "r < length M" using ri i by simp
    have "r \<le> i \<and> i < length M \<and> Row_pivot (M ! i) \<noteq> - 1" using ri i lead by simp
    then have "\<not> zeros_from M r" unfolding zeros_from_def by blast
    then obtain q' where q': "unit_pivot M r q'"
      using rinv rl by (auto simp: ref_inv_def)
    have "Row_pivot (N ! r) = int q'" using above[OF ri q'] by (rule unit_pivot_Row_pivot)
    moreover have "Row_pivot (N ! r) = int q" using q by (rule unit_pivot_Row_pivot)
    ultimately have qq: "q' = q" by simp
    have qp: "q < p" using left[OF ri q'] qq by simp
    have "M ! j ! q = 0" using clr[OF ri _ j] q' qq by simp
    then show ?thesis using low[OF qp, of j] j rl by simp
  qed
  show ?thesis
    unfolding rref_inv_def N_def[symmetric] using echelon cleared by blast
qed

lemma fold_rref_step_inv:
  assumes "uniform n M" "ref_inv (length M) M" "1 \<le> b" "b \<le> length M"
  shows "rref_inv b (fold rref_step_pure [1..<b] M)"
  using assms(3,4)
proof (induction b)
  case 0
  then show ?case by simp
next
  case (Suc b)
  show ?case
  proof (cases "b = 0")
    case True
    then show ?thesis using assms(2) by (simp add: rref_inv_def)
  next
    case False
    let ?N = "fold rref_step_pure [1..<b] M"
    have "uniform n ?N" using assms(1) Suc.prems by (intro uniform_fold_rref_step) simp_all
    moreover have "b < length ?N" using Suc.prems by simp
    moreover have "rref_inv b ?N" using Suc False by simp
    ultimately have "rref_inv (Suc b) (rref_step_pure b ?N)" by (rule rref_step_inv)
    then show ?thesis using False by simp
  qed
qed

lemma rref_pure_inv:
  assumes "uniform n A" "A \<noteq> []"
  shows "rref_inv (length A) (rref_pure A)"
proof -
  have "rref_inv (length (ref_pure A)) (fold rref_step_pure [1..<length (ref_pure A)] (ref_pure A))"
    using assms by (intro fold_rref_step_inv[of n] uniform_ref_pure)
      (simp_all add: ref_pure_inv[of n] Suc_le_eq)
  then show ?thesis by (simp add: rref_pure_def rref_up_def)
qed

lemma rref_inv_post:
  assumes "rref_inv (length R) R"
  shows "rref_post R"
  unfolding rref_post_def
proof (intro conjI ballI impI)
  have rinv: "ref_inv (length R) R" using assms by (simp add: rref_inv_def)
  then show "ref_post R" by (rule ref_inv_post)
  fix i j
  assume i: "i \<in> set [0..<length R]" and nz: "\<not> Row_is_zero (R ! i)"
    and j: "j \<in> set [0..<length R]" and ji: "j \<noteq> i"
  define p where "p = nat (Row_pivot (R ! i))"
  have up: "unit_pivot R i p"
    unfolding p_def using rinv i nz by (intro ref_inv_unit) (simp_all add: Row_is_zero_pivot)
  show "R ! j ! nat (Row_pivot (R ! i)) = 0"
  proof (cases "j < i")
    case True
    then show ?thesis using assms up i by (auto simp: rref_inv_def p_def)
  next
    case False
    then have "i < j" using ji by simp
    then show ?thesis using up j by (simp add: unit_pivot_def p_def)
  qed
qed

text \<open>
  Claim C3.  On every valid matrix \<^verbatim>\<open>rref\<close> returns (at the default verbose level), and at
  every verbose level whatever it returns satisfies the postcondition of \<^verbatim>\<open>ref\<close> and has,
  in the pivot column of every non-zero row, zero in every other row.
\<close>

theorem rref_reduced:
  assumes "valid_matrix A"
  shows "(\<exists>R. rref 0 A = Inr R \<and> rref_post R) \<and>
         (\<forall>verbose R. rref verbose A = Inr R \<longrightarrow> rref_post R)"
proof -
  have "rref_inv (length A) (rref_pure A)"
    using assms by (intro rref_pure_inv[of "length (hd A)"]) (simp_all add: valid_matrix_uniform)
  then have "rref_post (rref_pure A)"
    using rref_inv_post[of "rref_pure A"] by simp
  then show ?thesis using assms by (simp add: rref_eq)
qed

theorem rref_reduced_witness:
  "valid_matrix [[0, 2, 4], [3, 3, 3], [1, 1, 1]] \<and>
   rref 0 [[0, 2, 4], [3, 3, 3], [1, 1, 1]] = Inr [[1, 0, - 1], [0, 1, 2], [0, 0, 0]] \<and>
   rref_post [[1, 0, - 1], [0, 1, 2], [0, 0, 0]]"
proof -
  have v: "valid_matrix [[0, 2, 4], [3, 3, 3], [1, 1, 1]]" by code_simp
  have e: "rref 0 [[0, 2, 4], [3, 3, 3], [1, 1, 1]] = Inr [[1, 0, - 1], [0, 1, 2], [0, 0, 0]]"
    by code_simp
  from rref_reduced[OF v] e v show ?thesis by simp
qed

subsection \<open>Dimensions and validity of the results\<close>

lemma uniform_set: "uniform n M \<longleftrightarrow> (\<forall>r\<in>set M. length r = n)"
  by (simp add: uniform_def list_all_iff)

lemma valid_matrix_intro:
  assumes "uniform n M" "M \<noteq> []"
  shows "valid_matrix M" "length (hd M) = n"
proof -
  show n: "length (hd M) = n" using assms by (cases M) (simp_all add: uniform_def)
  show "valid_matrix M" using assms by (simp add: valid_matrix_uniform n)
qed

lemma Matrix_dim_valid: "valid_matrix A \<Longrightarrow> Matrix_dim A = Inr (length A, length (hd A))"
  by (cases A) (simp_all add: Matrix_dim_def valid_matrix_def)

lemma ref_pure_valid:
  assumes "valid_matrix A"
  shows "valid_matrix (ref_pure A)" "length (hd (ref_pure A)) = length (hd A)"
proof -
  have u: "uniform (length (hd A)) (ref_pure A)"
    using assms by (intro uniform_ref_pure valid_matrix_cols)
  have "length (ref_pure A) \<noteq> 0" using valid_matrix_nonempty[OF assms] by simp
  then have ne: "ref_pure A \<noteq> []" by (simp del: length_ref_pure)
  show "valid_matrix (ref_pure A)" "length (hd (ref_pure A)) = length (hd A)"
    using valid_matrix_intro[OF u ne] .
qed

lemma rref_pure_valid:
  assumes "valid_matrix A"
  shows "valid_matrix (rref_pure A)" "length (hd (rref_pure A)) = length (hd A)"
proof -
  have u: "uniform (length (hd A)) (rref_pure A)"
    using assms by (intro uniform_rref_pure valid_matrix_cols)
  have "length (rref_pure A) \<noteq> 0" using valid_matrix_nonempty[OF assms] by simp
  then have ne: "rref_pure A \<noteq> []" by (simp del: length_rref_pure)
  show "valid_matrix (rref_pure A)" "length (hd (rref_pure A)) = length (hd A)"
    using valid_matrix_intro[OF u ne] .
qed

text \<open>
  Claim C10.  On every valid matrix \<^verbatim>\<open>ref\<close> and \<^verbatim>\<open>rref\<close> return (at the default verbose
  level), and at every verbose level whatever either returns has the row count and the
  column count of the argument and satisfies the constructor's invariant again.
\<close>

theorem ref_rref_dimensions:
  assumes "valid_matrix A"
  shows "(\<exists>R. ref 0 A = Inr R) \<and> (\<exists>R. rref 0 A = Inr R) \<and>
         (\<forall>verbose R. ref verbose A = Inr R \<or> rref verbose A = Inr R \<longrightarrow>
            length R = length A \<and> (\<forall>r\<in>set R. length r = length (hd A)) \<and>
            Matrix_dim R = Matrix_dim A \<and> valid_matrix R)"
proof -
  have 1: "length (ref_pure A) = length A \<and> (\<forall>r\<in>set (ref_pure A). length r = length (hd A)) \<and>
      Matrix_dim (ref_pure A) = Matrix_dim A \<and> valid_matrix (ref_pure A)"
    using assms uniform_ref_pure[OF valid_matrix_cols[OF assms]] ref_pure_valid[OF assms]
    by (simp add: Matrix_dim_valid uniform_set)
  have 2: "length (rref_pure A) = length A \<and> (\<forall>r\<in>set (rref_pure A). length r = length (hd A)) \<and>
      Matrix_dim (rref_pure A) = Matrix_dim A \<and> valid_matrix (rref_pure A)"
    using assms uniform_rref_pure[OF valid_matrix_cols[OF assms]] rref_pure_valid[OF assms]
    by (simp add: Matrix_dim_valid uniform_set)
  show ?thesis
  proof (intro conjI allI impI)
    show "\<exists>R. ref 0 A = Inr R" using assms by (simp add: ref_eq)
    show "\<exists>R. rref 0 A = Inr R" using assms by (simp add: rref_eq)
  next
    fix verbose R
    assume "ref verbose A = Inr R \<or> rref verbose A = Inr R"
    then have "R = ref_pure A \<or> R = rref_pure A"
      using assms by (auto simp: ref_eq rref_eq split: if_splits)
    then show "length R = length A" "\<forall>r\<in>set R. length r = length (hd A)"
      "Matrix_dim R = Matrix_dim A" "valid_matrix R"
      using 1 2 by blast+
  qed
qed

theorem ref_rref_dimensions_witness:
  "valid_matrix [[1, 2, 3], [4, 5, 6]] \<and>
   ref 0 [[1, 2, 3], [4, 5, 6]] = Inr [[1, 2, 3], [0, 1, 2]] \<and>
   rref 0 [[1, 2, 3], [4, 5, 6]] = Inr [[1, 0, - 1], [0, 1, 2]] \<and>
   Matrix_dim [[1, 2, 3], [0, 1, 2]] = Matrix_dim [[1, 2, 3], [4, 5, 6]] \<and>
   Matrix_dim [[1, 0, - 1], [0, 1, 2]] = Matrix_dim [[1, 2, 3], [4, 5, 6]] \<and>
   valid_matrix [[1, 2, 3], [0, 1, 2]] \<and> valid_matrix [[1, 0, - 1], [0, 1, 2]]"
proof -
  have v: "valid_matrix [[1, 2, 3], [4, 5, 6]]" by code_simp
  have e: "ref 0 [[1, 2, 3], [4, 5, 6]] = Inr [[1, 2, 3], [0, 1, 2]]" by code_simp
  have f: "rref 0 [[1, 2, 3], [4, 5, 6]] = Inr [[1, 0, - 1], [0, 1, 2]]" by code_simp
  note t = ref_rref_dimensions[OF v, THEN conjunct2, THEN conjunct2, rule_format]
  from t[of 0 "[[1, 2, 3], [0, 1, 2]]"] e
  have a: "Matrix_dim [[1, 2, 3], [0, 1, 2]] = Matrix_dim [[1, 2, 3], [4, 5, 6]] \<and>
      valid_matrix [[1, 2, 3], [0, 1, 2]]" by blast
  from t[of 0 "[[1, 0, - 1], [0, 1, 2]]"] f
  have b: "Matrix_dim [[1, 0, - 1], [0, 1, 2]] = Matrix_dim [[1, 2, 3], [4, 5, 6]] \<and>
      valid_matrix [[1, 0, - 1], [0, 1, 2]]" by blast
  from v e f a b show ?thesis by blast
qed

subsection \<open>A reduced echelon form is a fixed point\<close>

lemma comb_row_zero: "length rj \<le> length ri \<Longrightarrow> comb_row 0 rj ri = rj"
  by (rule nth_equalityI) (simp_all add: comb_row_def)

lemma Row_mul_one [simp]: "Row_mul r 1 = r"
  by (simp add: Row_mul_def)

lemma elim_pure_id:
  assumes "\<forall>j\<in>set js. j < length M \<and> M ! j ! p = 0 \<and> length (M ! j) \<le> length (M ! i)"
  shows "elim_pure q p i js M = M"
  using assms by (induction js) (simp_all add: comb_row_zero)

lemma fold_fixed: "\<forall>j\<in>set js. f j M = M \<Longrightarrow> fold f js M = M"
  by (induction js) simp_all

lemma ref_step_fixed:
  assumes u: "uniform n R" and i: "i < length R" and inv: "ref_inv (length R) R"
  shows "ref_step_pure i R = R"
proof (cases "ref_pivots R i = []")
  case True
  then show ?thesis by (simp add: ref_step_pure_def)
next
  case False
  then obtain p pr where h: "ref_pivots R i ! 0 = (int p, pr)" "i \<le> pr" "pr < length R"
    "Row_pivot (R ! pr) = int p"
    and least: "\<forall>k. i \<le> k \<and> k < length R \<and> Row_pivot (R ! k) \<noteq> - 1 \<longrightarrow>
       (int p, pr) \<le> (Row_pivot (R ! k), k)"
    by (rule ref_pivots_hd)
  have nz: "Row_pivot (R ! i) \<noteq> - 1"
  proof
    assume z: "Row_pivot (R ! i) = - 1"
    have "Row_pivot (R ! pr) = - 1"
    proof (cases "pr = i")
      case True
      then show ?thesis using z by simp
    next
      case False
      then show ?thesis using ref_inv_zero_below[OF inv _ h(3) z] h(2) by simp
    qed
    then show False using h(4) by simp
  qed
  have le: "(int p, pr) \<le> (Row_pivot (R ! i), i)" using least i nz by blast
  have pri: "pr = i"
  proof (rule ccontr)
    assume "pr \<noteq> i"
    then have "i < pr" using h(2) by simp
    then have "Row_pivot (R ! i) < int p"
      using ref_inv_strict[OF inv _ h(3) nz] h(4) by simp
    then show False using le \<open>i < pr\<close> by (auto simp: less_eq_prod_simp)
  qed
  have up: "unit_pivot R i p" using ref_inv_unit[OF inv i nz] h(4) pri by simp
  then have one: "R ! i ! p = 1"
    and below: "\<forall>s. i < s \<and> s < length R \<longrightarrow> R ! s ! p = 0"
    by (simp_all add: unit_pivot_def)
  have ln: "length (R ! k) = n" if "k < length R" for k using u that by (rule uniform_nth)
  have "elim_pure 1 p i [i + 1..<length R] R = R"
    using below ln i by (intro elim_pure_id) simp
  then show ?thesis using False h(1) pri one by (simp add: ref_step_pure_def)
qed

lemma rref_step_fixed:
  assumes u: "uniform n R" and i: "i < length R" and inv: "rref_inv (length R) R"
  shows "rref_step_pure i R = R"
proof (cases "R ! i" rule: Row_pivot_cases)
  case zero
  then show ?thesis by (simp add: rref_step_pure_def)
next
  case (lead p)
  have rinv: "ref_inv (length R) R" using inv by (simp add: rref_inv_def)
  have up: "unit_pivot R i p" using ref_inv_unit[OF rinv i] lead by simp
  then have above: "\<forall>j<i. R ! j ! p = 0" using inv i by (auto simp: rref_inv_def)
  have ln: "length (R ! k) = n" if "k < length R" for k using u that by (rule uniform_nth)
  have "elim_pure (1 / (R ! i ! p)) p i [0..<i] R = R"
    using above ln i by (intro elim_pure_id) simp
  then show ?thesis using lead by (simp add: rref_step_pure_def)
qed

lemma rref_pure_fixed:
  assumes "uniform n R" "rref_inv (length R) R"
  shows "rref_pure R = R"
proof -
  have rinv: "ref_inv (length R) R" using assms(2) by (simp add: rref_inv_def)
  have "ref_pure R = R"
    unfolding ref_pure_def using ref_step_fixed[OF assms(1) _ rinv] by (intro fold_fixed) simp
  moreover have "rref_up R = R"
    unfolding rref_up_def using rref_step_fixed[OF assms(1) _ assms(2)] by (intro fold_fixed) simp
  ultimately show ?thesis by (simp add: rref_pure_def)
qed

text \<open>
  Claim C7.  \<^verbatim>\<open>rref\<close> is idempotent: on a valid matrix it returns a matrix (at the default
  verbose level), and at every verbose level, applied to a matrix it has returned, it
  returns that matrix again, entry for entry.
\<close>

theorem rref_idempotent:
  assumes "valid_matrix A"
  shows "(\<exists>R. rref 0 A = Inr R \<and> rref 0 R = Inr R) \<and>
         (\<forall>verbose R. rref verbose A = Inr R \<longrightarrow> rref verbose R = Inr R)"
proof -
  define R where "R = rref_pure A"
  have u: "uniform (length (hd A)) R"
    unfolding R_def using assms by (intro uniform_rref_pure valid_matrix_cols)
  have "rref_inv (length A) (rref_pure A)"
    using assms by (intro rref_pure_inv[of "length (hd A)"]) (simp_all add: valid_matrix_uniform)
  then have "rref_inv (length R) R" by (simp add: R_def)
  then have fixed: "rref_pure R = R" using u by (rule rref_pure_fixed[rotated])
  have vR: "valid_matrix R" and hR: "length (hd R) = length (hd A)"
    unfolding R_def using rref_pure_valid[OF assms] by simp_all
  have again: "rref verbose R = Inr R" if "rref verbose A = Inr R'" for verbose R'
    using that assms vR hR fixed by (simp add: rref_eq split: if_splits)
  have "rref 0 A = Inr R" using assms by (simp add: rref_eq R_def)
  moreover have "R' = R" if "rref verbose A = Inr R'" for verbose R'
    using that assms by (simp add: rref_eq R_def split: if_splits)
  ultimately show ?thesis using again by blast
qed

theorem rref_idempotent_witness:
  "valid_matrix [[0, 2, 4], [3, 3, 3], [1, 1, 1]] \<and>
   rref 0 [[0, 2, 4], [3, 3, 3], [1, 1, 1]] = Inr [[1, 0, - 1], [0, 1, 2], [0, 0, 0]] \<and>
   rref 0 [[1, 0, - 1], [0, 1, 2], [0, 0, 0]] = Inr [[1, 0, - 1], [0, 1, 2], [0, 0, 0]]"
proof -
  have v: "valid_matrix [[0, 2, 4], [3, 3, 3], [1, 1, 1]]" by code_simp
  have e: "rref 0 [[0, 2, 4], [3, 3, 3], [1, 1, 1]] = Inr [[1, 0, - 1], [0, 1, 2], [0, 0, 0]]"
    by code_simp
  from rref_idempotent[OF v, THEN conjunct2, rule_format, OF e] e v show ?thesis by blast
qed

subsection \<open>The loops of \<open>det\<close>\<close>

lemma entry_in:
  "uniform n M \<Longrightarrow> k < length M \<Longrightarrow>
   entry M k (int c) = (if c < n then Inr (M ! k ! c) else Inl IndexError)"
  by (simp add: entry_def Row_getitem_int uniform_nth)

lemma det_find_pure:
  assumes "uniform n M" "i < n" "\<forall>k\<in>set ks. k < length M"
  shows "det_find M i ks = Inr (find (\<lambda>k. M ! k ! i \<noteq> 0) ks)"
  using assms(3) by (induction ks) (simp_all add: entry_in[OF assms(1)] assms(2))

lemma det_find_fail:
  assumes "uniform n M" "n \<le> i" "k < length M"
  shows "det_find M i (k # ks) = Inl IndexError"
  using assms by (simp add: entry_in[OF assms(1)])

lemma length_det_step_pure [simp]: "length (fst (det_step_pure i (M, neg))) = length M"
  by (simp add: det_step_pure_def Let_def split: option.splits)

lemma uniform_det_step_pure:
  assumes "uniform n M" "i < length M"
  shows "uniform n (fst (det_step_pure i (M, neg)))"
proof (cases "find (\<lambda>k. M ! k ! i \<noteq> 0) [i..<length M]")
  case None
  then show ?thesis using assms by (simp add: det_step_pure_def)
next
  case (Some k)
  then have k: "k < length M" by (auto simp: find_Some_iff)
  define M1 where "M1 = (if k \<noteq> i then (M[i := M ! k])[k := M ! i] else M)"
  have "uniform n M1" unfolding M1_def using assms k by (simp add: uniform_swap)
  moreover have "length M1 = length M" by (simp add: M1_def)
  ultimately have "uniform n (elim_pure (1 / (M1 ! i ! i)) i i [i + 1..<length M] M1)"
    using assms(2) by (intro uniform_elim_pure) simp_all
  then show ?thesis using Some by (simp add: det_step_pure_def Let_def M1_def)
qed

lemma find_upt_Some:
  assumes "find P [i..<m] = Some k"
  shows "i \<le> k" "k < m" "P k" "\<forall>j. i \<le> j \<and> j < k \<longrightarrow> \<not> P j"
proof -
  from assms obtain a where a: "a < length [i..<m]" "P ([i..<m] ! a)" "k = [i..<m] ! a"
    "\<forall>j<a. \<not> P ([i..<m] ! j)"
    unfolding find_Some_iff by blast
  then have k: "k = i + a" and am: "i + a < m" by simp_all
  show "i \<le> k" "k < m" "P k" using a k am by simp_all
  show "\<forall>j. i \<le> j \<and> j < k \<longrightarrow> \<not> P j"
  proof (intro allI impI)
    fix j assume j: "i \<le> j \<and> j < k"
    then have "j - i < a" using k by linarith
    then have "\<not> P ([i..<m] ! (j - i))" using a(4) by blast
    moreover have "[i..<m] ! (j - i) = j" using j k am by simp
    ultimately show "\<not> P j" by simp
  qed
qed

lemma det_loop_step:
  assumes u: "uniform n M" and i: "i < length M" "i < n"
  shows "det_loop verbose M neg (i # rest) =
     det_loop verbose (fst (det_step_pure i (M, neg))) (snd (det_step_pure i (M, neg))) rest"
proof (cases "find (\<lambda>k. M ! k ! i \<noteq> 0) [i..<length M]")
  case None
  then have "det_find M i [i..<length M] = Inr None"
    using det_find_pure[OF u i(2), of "[i..<length M]"] by simp
  then show ?thesis using None by (simp add: det_step_pure_def)
next
  case (Some k)
  have f: "det_find M i [i..<length M] = Inr (Some k)"
    using det_find_pure[OF u i(2), of "[i..<length M]"] Some by simp
  have k: "i \<le> k" "k < length M" "M ! k ! i \<noteq> 0"
    using find_upt_Some[OF Some] by simp_all
  define M1 where "M1 = (if k \<noteq> i then (M[i := M ! k])[k := M ! i] else M)"
  define neg1 where "neg1 = (if k \<noteq> i then neg * (- 1) else neg)"
  define a where "a = M1 ! i ! i"
  define M2 where "M2 = elim_pure (1 / a) i i [i + 1..<length M] M1"
  have len: "length M1 = length M" "length M2 = length M" by (simp_all add: M1_def M2_def)
  have u1: "uniform n M1" unfolding M1_def using u i(1) k(2) by (simp add: uniform_swap)
  have u2: "uniform n M2"
    unfolding M2_def using u1 i(1) len by (intro uniform_elim_pure) simp_all
  have M1i: "M1 ! i = M ! k" using i(1) k(2) by (simp add: M1_def nth_list_update)
  have a: "a \<noteq> 0" using k(3) by (simp add: a_def M1i)
  have sw: "(if k \<noteq> i then ebind (swap_rows M i k) (\<lambda>n. Inr (n, neg * (- 1))) else Inr (M, neg))
      = Inr (M1, neg1)"
    using i(1) k(2) by (simp add: swap_rows_in M1_def neg1_def)
  have e: "entry M1 i (int i) = Inr a"
    using i len by (simp add: entry_in[OF u1] a_def)
  have el: "det_elim verbose a i M1 [Suc i..<length M1] = Inr M2"
    using det_elim_pure[OF u1 _ i(2) a, of "[i + 1..<length M1]" verbose] i(1) len
    by (simp add: M2_def)
  have n0: "0 < n" "0 < length M" using i by auto
  have p1: "Matrix_print M1 = Inr ()" using u1 n0 len by (intro uniform_print[of n]) simp_all
  have p2: "Matrix_print M2 = Inr ()" using u2 n0 len by (intro uniform_print[of n]) simp_all
  have step: "det_step_pure i (M, neg) = (M2, neg1)"
    using Some by (simp add: det_step_pure_def Let_def M2_def M1_def neg1_def a_def)
  have body: "det_loop verbose M neg (i # rest) =
      ebind (if k \<noteq> i then ebind (swap_rows M i k) (\<lambda>n. Inr (n, neg * (- 1)))
             else Inr (M, neg)) (\<lambda>(new1, neg1).
      ebind (run_if (verbose > 1 \<and> k \<noteq> i) (Matrix_print new1)) (\<lambda>_.
      ebind (entry new1 i (int i)) (\<lambda>pivot.
      ebind (det_elim verbose pivot i new1 [i + 1..<length new1]) (\<lambda>new2.
      ebind (run_if (verbose = 1) (Matrix_print new2)) (\<lambda>_.
      det_loop verbose new2 neg1 rest)))))"
    by (simp only: det_loop.simps f ebind_Inr option.case)
  show ?thesis unfolding step body sw by (simp add: p1 e el p2 run_if_def)
qed

lemma det_loop_fail:
  assumes "uniform n M" "i < length M" "n \<le> i"
  shows "det_loop verbose M neg (i # rest) = Inl IndexError"
proof -
  have "[i..<length M] = i # [Suc i..<length M]" using assms(2) by (simp add: upt_conv_Cons)
  then have "det_find M i [i..<length M] = Inl IndexError"
    using det_find_fail[OF assms(1,3,2)] by simp
  then show ?thesis by simp
qed

lemma fold_det_step_fst_length [simp]:
  "length (fst (fold det_step_pure js (M, neg))) = length M"
proof (induction js arbitrary: M neg)
  case Nil
  then show ?case by simp
next
  case (Cons j js)
  obtain M' neg' where s: "det_step_pure j (M, neg) = (M', neg')" by (cases "det_step_pure j (M, neg)")
  have "length M' = length M" using length_det_step_pure[of j M neg] s by simp
  then show ?case using Cons[of M' neg'] s by simp
qed

lemma uniform_fold_det_step:
  assumes "uniform n M" "\<forall>i\<in>set js. i < length M"
  shows "uniform n (fst (fold det_step_pure js (M, neg)))"
  using assms
proof (induction js arbitrary: M neg)
  case Nil
  then show ?case by simp
next
  case (Cons j js)
  obtain M' neg' where s: "det_step_pure j (M, neg) = (M', neg')" by (cases "det_step_pure j (M, neg)")
  have l: "length M' = length M" using length_det_step_pure[of j M neg] s by simp
  have "uniform n M'" using uniform_det_step_pure[of n M j neg] Cons.prems s by simp
  then show ?case using Cons.IH[of M' neg'] Cons.prems s l by simp
qed

lemma det_loop_pure:
  assumes "uniform n M" "\<forall>i\<in>set js. i < length M \<and> i < n"
  shows "det_loop verbose M neg js = Inr (fold det_step_pure js (M, neg))"
  using assms
proof (induction js arbitrary: M neg)
  case Nil
  then show ?case by simp
next
  case (Cons j js)
  obtain M' neg' where s: "det_step_pure j (M, neg) = (M', neg')" by (cases "det_step_pure j (M, neg)")
  have l: "length M' = length M" using length_det_step_pure[of j M neg] s by simp
  have u: "uniform n M'" using uniform_det_step_pure[of n M j neg] Cons.prems s by simp
  have "det_loop verbose M neg (j # js) = det_loop verbose M' neg' js"
    using det_loop_step[of n M j verbose neg js] Cons.prems s by simp
  also have "\<dots> = Inr (fold det_step_pure js (M', neg'))"
    using Cons.prems l by (intro Cons.IH u) simp
  finally show ?case using s by simp
qed

lemma det_loop_tall:
  assumes "uniform n M" "\<forall>i\<in>set js. i < length M \<and> i < n" "k < length M" "n \<le> k"
  shows "det_loop verbose M neg (js @ k # ks) = Inl IndexError"
  using assms
proof (induction js arbitrary: M neg)
  case Nil
  then show ?case using det_loop_fail[of n M k] by simp
next
  case (Cons j js)
  obtain M' neg' where s: "det_step_pure j (M, neg) = (M', neg')" by (cases "det_step_pure j (M, neg)")
  have l: "length M' = length M" using length_det_step_pure[of j M neg] s by simp
  have u: "uniform n M'" using uniform_det_step_pure[of n M j neg] Cons.prems s by simp
  have "det_loop verbose M neg ((j # js) @ k # ks) = det_loop verbose M' neg' (js @ k # ks)"
    using det_loop_step[of n M j verbose neg "js @ k # ks"] Cons.prems s by simp
  also have "\<dots> = Inl IndexError"
    using Cons.prems l by (intro Cons.IH u) simp_all
  finally show ?case .
qed

lemma diag_product_pure:
  assumes "uniform n M" "\<forall>c\<in>set cs. c < length M \<and> c < n"
  shows "diag_product M a cs = Inr (a * prod_list (map (\<lambda>c. M ! c ! c) cs))"
  using assms(2)
  by (induction cs arbitrary: a) (simp_all add: entry_in[OF assms(1)] mult.assoc)

lemma det_eq:
  assumes "valid_matrix A"
  shows "det verbose A =
     (if 0 < verbose \<and> length (hd A) = 0 then Inl EmptySequence
      else if length (hd A) < length A then Inl IndexError
      else Inr (det_pure A))"
proof -
  define n where "n = length (hd A)"
  have u: "uniform n A" unfolding n_def using assms by (rule valid_matrix_cols)
  have loop: "det_loop verbose A 1 [0..<length A] =
      (if n < length A then Inl IndexError else Inr (fold det_step_pure [0..<length A] (A, 1)))"
  proof (cases "n < length A")
    case True
    have "[0..<length A] = [0..<n] @ n # [Suc n..<length A]"
      using True by (metis le0 upt_add_eq_append upt_conv_Cons le_add_diff_inverse less_imp_le_nat)
    then show ?thesis
      using det_loop_tall[OF u, of "[0..<n]" n verbose 1 "[Suc n..<length A]"] True by simp
  next
    case False
    then show ?thesis using det_loop_pure[OF u, of "[0..<length A]" verbose 1] by auto
  qed
  obtain M neg where f: "fold det_step_pure [0..<length A] (A, 1) = (M, neg)"
    by (cases "fold det_step_pure [0..<length A] (A, 1)")
  have lM: "length M = length A" using fold_det_step_fst_length[of "[0..<length A]" A 1] f by simp
  have uM: "uniform n M" using uniform_fold_det_step[OF u, of "[0..<length A]" 1] f by simp
  have dp: "diag_product M 1 [0..<length M] = Inr (prod_list (map (\<lambda>c. M ! c ! c) [0..<length M]))"
    if "\<not> n < length A"
    using diag_product_pure[OF uM, of "[0..<length M]" 1] that lM by simp
  have pure: "det_pure A = of_int neg * prod_list (map (\<lambda>c. M ! c ! c) [0..<length M])"
    by (simp add: det_pure_def f)
  show ?thesis
    using assms loop dp
    by (simp add: det_def Matrix_deepcopy_valid Matrix_dim_valid valid_matrix_print run_if_def
        n_def[symmetric] f pure)
qed

subsection \<open>The square check of the determinant\<close>

text \<open>
  Claim C1.  The claim does not hold of the code.  The guard of \<^verbatim>\<open>det\<close> compares
  \<^verbatim>\<open>new.dim()[1]\<close> with itself, so it never fires: on the 2 by 3 matrix of the
  specification \<^verbatim>\<open>det\<close> returns a number at every verbose level instead of failing with
  \<open>NotSquare (2, 3)\<close>, on a 3 by 2 matrix it fails with the \<^verbatim>\<open>IndexError\<close> of a list
  access, and no call of \<^verbatim>\<open>det\<close> on any constructor argument ends in \<open>NotSquare\<close>.
\<close>

theorem det_non_square_returns:
  "(\<forall>verbose. ebind (Matrix_init [[1, 2, 3], [4, 5, 6]]) (det verbose) = Inr (- 3)) \<and>
   (\<forall>verbose. ebind (Matrix_init [[1, 2], [3, 4], [5, 6]]) (det verbose) = Inl IndexError) \<and>
   (\<forall>x verbose d. ebind (Matrix_init x) (det verbose) \<noteq> Inl (NotSquare d))"
proof (intro conjI allI)
  fix verbose :: int
  have v: "valid_matrix [[1, 2, 3], [4, 5, 6]]" by code_simp
  have p: "det_pure [[1, 2, 3], [4, 5, 6]] = - 3" by code_simp
  show "ebind (Matrix_init [[1, 2, 3], [4, 5, 6]]) (det verbose) = Inr (- 3)"
    using v p by (simp add: Matrix_init_eq det_eq)
  have w: "valid_matrix [[1, 2], [3, 4], [5, 6]]" by code_simp
  show "ebind (Matrix_init [[1, 2], [3, 4], [5, 6]]) (det verbose) = Inl IndexError"
    using w by (simp add: Matrix_init_eq det_eq)
  fix x :: "rat list list" and d
  show "ebind (Matrix_init x) (det verbose) \<noteq> Inl (NotSquare d)"
    by (simp add: Matrix_init_eq det_eq)
qed

subsection \<open>No division by zero\<close>

text \<open>
  Claim C4.  Dividing a row or a number by zero is an error of the model
  (\<open>DivideByZero\<close>), and no call of \<^verbatim>\<open>det\<close>, \<^verbatim>\<open>ref\<close> or \<^verbatim>\<open>rref\<close> on a valid matrix ends
  in it, at any verbose level: an exception raised inside the algorithms would be their
  result, so none of their divisions, by pivots that were found non-zero, divides by zero.
\<close>

theorem no_division_by_zero:
  assumes "valid_matrix A"
  shows "Row_truediv r 0 = Inl DivideByZero \<and> scalar_div a 0 = Inl DivideByZero \<and>
         det verbose A \<noteq> Inl DivideByZero \<and>
         ref verbose A \<noteq> Inl DivideByZero \<and>
         rref verbose A \<noteq> Inl DivideByZero"
  using assms by (simp add: det_eq ref_eq rref_eq Row_truediv_def scalar_div_def)

theorem no_division_by_zero_witness:
  "valid_matrix [[0, 2], [3, 4]] \<and>
   det 2 [[0, 2], [3, 4]] \<noteq> Inl DivideByZero \<and>
   ref 2 [[0, 2], [3, 4]] \<noteq> Inl DivideByZero \<and>
   rref 2 [[0, 2], [3, 4]] \<noteq> Inl DivideByZero"
proof -
  have v: "valid_matrix [[0, 2], [3, 4]]" by code_simp
  from no_division_by_zero[OF v, of _ _ 2] v show ?thesis by blast
qed

subsection \<open>Row operations keep dependent rows dependent\<close>

lemma sum_two:
  fixes f :: "nat \<Rightarrow> rat"
  assumes "finite S" "i \<in> S" "k \<in> S" "i \<noteq> k"
  shows "sum f S = f i + f k + sum f (S - {i, k})"
proof -
  have "sum f S = f i + sum f (S - {i})" using assms by (simp add: sum.remove)
  also have "sum f (S - {i}) = f k + sum f (S - {i} - {k})"
    using assms by (intro sum.remove) auto
  also have "S - {i} - {k} = S - {i, k}" by auto
  finally show ?thesis by simp
qed

lemma dependent_zero_row:
  assumes "i < length M" "\<forall>col<n. M ! i ! col = 0"
  shows "dependent_rows n M"
proof -
  define c where "c = (\<lambda>k. if k = i then 1 else (0::rat))"
  have nz: "\<exists>k<length M. c k \<noteq> 0" using assms(1) by (auto simp: c_def)
  have zero: "\<forall>col<n. (\<Sum>k<length M. c k * M ! k ! col) = 0"
  proof (intro allI impI)
    fix col assume col: "col < n"
    have "(\<Sum>k<length M. c k * M ! k ! col) = (\<Sum>k<length M. if k = i then M ! k ! col else 0)"
      by (intro sum.cong) (auto simp: c_def)
    also have "\<dots> = M ! i ! col" using assms(1) by simp
    finally show "(\<Sum>k<length M. c k * M ! k ! col) = 0" using assms(2) col by simp
  qed
  show ?thesis unfolding dependent_rows_def by (intro exI[of _ c] conjI nz zero)
qed

lemma dependent_equal_rows:
  assumes "i < length M" "j < length M" "i \<noteq> j" "M ! i = M ! j"
  shows "dependent_rows n M"
proof -
  define c where "c = (\<lambda>k. if k = i then 1 else if k = j then - 1 else (0::rat))"
  have nz: "\<exists>k<length M. c k \<noteq> 0" using assms(1) by (auto simp: c_def)
  have zero: "\<forall>col<n. (\<Sum>k<length M. c k * M ! k ! col) = 0"
  proof (intro allI impI)
    fix col assume col: "col < n"
    have rest: "(\<Sum>k\<in>{..<length M} - {i, j}. c k * M ! k ! col) = 0"
      by (intro sum.neutral) (auto simp: c_def)
    have "(\<Sum>k<length M. c k * M ! k ! col) =
        c i * M ! i ! col + c j * M ! j ! col + (\<Sum>k\<in>{..<length M} - {i, j}. c k * M ! k ! col)"
      using assms(1,2,3) by (intro sum_two) auto
    then show "(\<Sum>k<length M. c k * M ! k ! col) = 0"
      unfolding rest using assms(3,4) by (simp add: c_def)
  qed
  show ?thesis unfolding dependent_rows_def by (intro exI[of _ c] conjI nz zero)
qed

lemma dependent_swap:
  assumes i: "i < length M" and k: "k < length M" and ik: "i \<noteq> k"
    and dep: "dependent_rows n M"
  shows "dependent_rows n ((M[i := M ! k])[k := M ! i])"
proof -
  let ?M' = "(M[i := M ! k])[k := M ! i]"
  let ?S = "{..<length M}"
  from dep obtain c x where x: "x < length M" "c x \<noteq> 0"
    and z: "\<forall>col<n. (\<Sum>k<length M. c k * M ! k ! col) = 0"
    unfolding dependent_rows_def by blast
  define c' where "c' = c(i := c k, k := c i)"
  have M'i: "?M' ! i = M ! k" and M'k: "?M' ! k = M ! i"
    using i k ik by (simp_all add: nth_list_update)
  have nz: "\<exists>y<length ?M'. c' y \<noteq> 0"
  proof (cases "x = i \<or> x = k")
    case True
    then show ?thesis using x i k ik by (auto simp: c'_def)
  next
    case False
    then have "c' x = c x" by (simp add: c'_def)
    then show ?thesis using x by auto
  qed
  have zero: "(\<Sum>y<length ?M'. c' y * ?M' ! y ! col) = 0" if col: "col < n" for col
  proof -
    have rest: "(\<Sum>y\<in>?S - {i, k}. c' y * ?M' ! y ! col) = (\<Sum>y\<in>?S - {i, k}. c y * M ! y ! col)"
      by (intro sum.cong) (auto simp: c'_def)
    have "(\<Sum>y\<in>?S. c' y * ?M' ! y ! col) =
        c' i * ?M' ! i ! col + c' k * ?M' ! k ! col + (\<Sum>y\<in>?S - {i, k}. c' y * ?M' ! y ! col)"
      using i k ik by (intro sum_two) auto
    also have "\<dots> = c i * M ! i ! col + c k * M ! k ! col + (\<Sum>y\<in>?S - {i, k}. c y * M ! y ! col)"
      unfolding rest M'i M'k using ik by (simp add: c'_def)
    also have "\<dots> = (\<Sum>y\<in>?S. c y * M ! y ! col)"
      using i k ik by (intro sum_two[symmetric]) auto
    finally show ?thesis using z col by simp
  qed
  show ?thesis unfolding dependent_rows_def using nz zero by (intro exI[of _ c'] conjI) simp_all
qed

lemma dependent_comb:
  assumes i: "i < length M" and j: "j < length M" and ij: "i \<noteq> j"
    and li: "length (M ! i) = n" and lj: "length (M ! j) = n"
    and dep: "dependent_rows n M"
  shows "dependent_rows n (M[j := comb_row t (M ! j) (M ! i)])"
proof -
  let ?M' = "M[j := comb_row t (M ! j) (M ! i)]"
  let ?S = "{..<length M}"
  from dep obtain c x where x: "x < length M" "c x \<noteq> 0"
    and z: "\<forall>col<n. (\<Sum>k<length M. c k * M ! k ! col) = 0"
    unfolding dependent_rows_def by blast
  define c' where "c' = c(i := c i + t * c j)"
  have M'i: "?M' ! i = M ! i" using ij by simp
  have M'j: "?M' ! j = comb_row t (M ! j) (M ! i)" using j by simp
  have nz: "\<exists>y<length ?M'. c' y \<noteq> 0"
  proof (cases "c j = 0")
    case True
    then have "c' = c" by (auto simp: c'_def)
    then show ?thesis using x by auto
  next
    case False
    then have "c' j \<noteq> 0" using ij by (simp add: c'_def)
    then show ?thesis using j by auto
  qed
  have zero: "(\<Sum>y<length ?M'. c' y * ?M' ! y ! col) = 0" if col: "col < n" for col
  proof -
    have rest: "(\<Sum>y\<in>?S - {i, j}. c' y * ?M' ! y ! col) = (\<Sum>y\<in>?S - {i, j}. c y * M ! y ! col)"
      by (intro sum.cong) (auto simp: c'_def)
    have cj: "comb_row t (M ! j) (M ! i) ! col = M ! j ! col - M ! i ! col * t"
      using col li lj by (simp add: nth_comb_row)
    have "(\<Sum>y\<in>?S. c' y * ?M' ! y ! col) =
        c' i * ?M' ! i ! col + c' j * ?M' ! j ! col + (\<Sum>y\<in>?S - {i, j}. c' y * ?M' ! y ! col)"
      using i j ij by (intro sum_two) auto
    also have "\<dots> = c i * M ! i ! col + c j * M ! j ! col + (\<Sum>y\<in>?S - {i, j}. c y * M ! y ! col)"
      unfolding rest M'i M'j cj using ij by (simp add: c'_def algebra_simps)
    also have "\<dots> = (\<Sum>y\<in>?S. c y * M ! y ! col)"
      using i j ij by (intro sum_two[symmetric]) auto
    finally show ?thesis using z col by simp
  qed
  show ?thesis unfolding dependent_rows_def using nz zero by (intro exI[of _ c'] conjI) simp_all
qed

lemma dependent_elim_pure:
  assumes "uniform n M" "i < length M" "i \<notin> set js" "\<forall>j\<in>set js. j < length M"
    "dependent_rows n M"
  shows "dependent_rows n (elim_pure q p i js M)"
  using assms
proof (induction js arbitrary: M)
  case Nil
  then show ?case by simp
next
  case (Cons j js)
  let ?M' = "M[j := comb_row ((M ! j ! p) * q) (M ! j) (M ! i)]"
  have j: "j < length M" "i \<noteq> j" using Cons.prems by auto
  have l: "length (M ! i) = n" "length (M ! j) = n"
    using Cons.prems(1,2) j by (simp_all add: uniform_nth)
  have d: "dependent_rows n ?M'"
    using Cons.prems(2) j l Cons.prems(5) by (intro dependent_comb) simp_all
  have u: "uniform n ?M'" using Cons.prems(1) l by (intro uniform_update) simp_all
  have "dependent_rows n (elim_pure q p i js ?M')"
    using Cons.prems(2,3,4) by (intro Cons.IH u d) simp_all
  then show ?case by simp
qed

lemma dependent_det_step:
  assumes "uniform n M" "i < length M" "dependent_rows n M"
  shows "dependent_rows n (fst (det_step_pure i (M, neg)))"
proof (cases "find (\<lambda>k. M ! k ! i \<noteq> 0) [i..<length M]")
  case None
  then show ?thesis using assms by (simp add: det_step_pure_def)
next
  case (Some k)
  then have k: "k < length M" by (auto simp: find_Some_iff)
  define M1 where "M1 = (if k \<noteq> i then (M[i := M ! k])[k := M ! i] else M)"
  have u1: "uniform n M1" unfolding M1_def using assms k by (simp add: uniform_swap)
  have l1: "length M1 = length M" by (simp add: M1_def)
  have d1: "dependent_rows n M1"
    unfolding M1_def using assms k by (auto intro: dependent_swap)
  have "dependent_rows n (elim_pure (1 / (M1 ! i ! i)) i i [i + 1..<length M] M1)"
    using assms(2) l1 by (intro dependent_elim_pure u1 d1) simp_all
  then show ?thesis using Some by (simp add: det_step_pure_def Let_def M1_def)
qed

subsection \<open>The working matrix of \<open>det\<close> becomes upper triangular\<close>

lemma find_upt_None: "find P [i..<m] = None \<Longrightarrow> i \<le> k \<Longrightarrow> k < m \<Longrightarrow> \<not> P k"
  by (auto simp: find_None_iff)

lemma lower_zero_det_step:
  assumes u: "uniform n M" and i: "i < length M" "i < n" and low: "lower_zero i M"
  shows "lower_zero (Suc i) (fst (det_step_pure i (M, neg)))"
proof (cases "find (\<lambda>k. M ! k ! i \<noteq> 0) [i..<length M]")
  case None
  have "M ! r ! col = 0" if "col < Suc i" "col < r" "r < length M" for col r
  proof (cases "col = i")
    case True
    then show ?thesis using find_upt_None[OF None, of r] that by simp
  next
    case False
    then show ?thesis using low that by (simp add: lower_zero_def)
  qed
  then show ?thesis using None by (simp add: det_step_pure_def lower_zero_def)
next
  case (Some k)
  have k: "i \<le> k" "k < length M" "M ! k ! i \<noteq> 0"
    using find_upt_Some[OF Some] by simp_all
  define M1 where "M1 = (if k \<noteq> i then (M[i := M ! k])[k := M ! i] else M)"
  define a where "a = M1 ! i ! i"
  define M2 where "M2 = elim_pure (1 / a) i i [i + 1..<length M] M1"
  have step: "fst (det_step_pure i (M, neg)) = M2"
    using Some by (simp add: det_step_pure_def Let_def M2_def M1_def a_def)
  have len: "length M1 = length M" "length M2 = length M" by (simp_all add: M1_def M2_def)
  have u1: "uniform n M1" unfolding M1_def using u i(1) k(2) by (simp add: uniform_swap)
  have ln: "length (M1 ! x) = n" if "x < length M" for x
    using u1 that len by (simp add: uniform_nth)
  have M1x: "M1 ! x = (if x = i then M ! k else if x = k then M ! i else M ! x)"
    if "x < length M" for x
    using that i(1) k(2) by (auto simp: M1_def nth_list_update)
  have a: "a \<noteq> 0" using k(3) M1x[OF i(1)] by (simp add: a_def)
  have low1: "M1 ! r ! col = 0" if "col < i" "col < r" "r < length M" for col r
    using M1x[OF that(3)] low that k(1,2) i(1) by (auto simp: lower_zero_def)
  have M2x: "M2 ! x = (if i < x then comb_row ((M1 ! x ! i) * (1 / a)) (M1 ! x) (M1 ! i) else M1 ! x)"
    if "x < length M" for x
  proof -
    have "elim_pure (1 / a) i i [i + 1..<length M] M1 ! x =
       (if x \<in> set [i + 1..<length M] then comb_row ((M1 ! x ! i) * (1 / a)) (M1 ! x) (M1 ! i)
        else M1 ! x)"
      using that len by (intro elim_pure_nth) simp_all
    then show ?thesis using that by (simp add: M2_def)
  qed
  have "M2 ! r ! col = 0" if c: "col < Suc i" "col < r" "r < length M" for col r
  proof (cases "i < r")
    case False
    then have "col < i" using c by simp
    then show ?thesis using M2x[OF c(3)] False low1[OF _ c(2,3)] by simp
  next
    case True
    have coln: "col < n" using c(1) i(2) by simp
    have e: "M2 ! r ! col = M1 ! r ! col - M1 ! i ! col * ((M1 ! r ! i) * (1 / a))"
      using M2x[OF c(3)] True coln ln[OF c(3)] ln[OF i(1)] by (simp add: nth_comb_row)
    show ?thesis
    proof (cases "col = i")
      case True
      then show ?thesis using e a by (simp add: a_def)
    next
      case False
      then have ci: "col < i" using c(1) by simp
      have "M1 ! r ! col = 0" using low1[OF ci c(2,3)] .
      moreover have "M1 ! i ! col = 0" using low1[OF ci ci i(1)] .
      ultimately show ?thesis using e by simp
    qed
  qed
  then show ?thesis unfolding step by (simp add: lower_zero_def len)
qed

lemma fold_det_step_inv:
  assumes u: "uniform n A" and d: "dependent_rows n A" and b: "b \<le> length A" "b \<le> n"
  shows "lower_zero b (fst (fold det_step_pure [0..<b] (A, 1))) \<and>
         dependent_rows n (fst (fold det_step_pure [0..<b] (A, 1)))"
  using b
proof (induction b)
  case 0
  then show ?case using d by (simp add: lower_zero_def)
next
  case (Suc b)
  obtain M neg where f: "fold det_step_pure [0..<b] (A, 1) = (M, neg)"
    by (cases "fold det_step_pure [0..<b] (A, 1)")
  have lM: "length M = length A" using fold_det_step_fst_length[of "[0..<b]" A 1] f by simp
  have uM: "uniform n M"
    using uniform_fold_det_step[OF u, of "[0..<b]" 1] f Suc.prems by simp
  have IH: "lower_zero b M" "dependent_rows n M" using Suc f by simp_all
  have bl: "b < length M" "b < n" using Suc.prems lM by simp_all
  have "lower_zero (Suc b) (fst (det_step_pure b (M, neg)))"
    using uM bl IH(1) by (rule lower_zero_det_step)
  moreover have "dependent_rows n (fst (det_step_pure b (M, neg)))"
    using uM bl(1) IH(2) by (rule dependent_det_step)
  ultimately show ?case by (simp add: f)
qed

text \<open>A triangular matrix with dependent rows has a zero on its diagonal.\<close>

lemma triangular_dependent_diag:
  assumes low: "lower_zero (length U) U" and dep: "dependent_rows (length U) U"
  shows "\<exists>k<length U. U ! k ! k = 0"
proof -
  from dep obtain c x where x: "x < length U" "c x \<noteq> 0"
    and z: "\<forall>col<length U. (\<Sum>k<length U. c k * U ! k ! col) = 0"
    unfolding dependent_rows_def by blast
  define k where "k = (LEAST k. c k \<noteq> 0)"
  have ck: "c k \<noteq> 0" unfolding k_def using x(2) by (rule LeastI)
  have kx: "k \<le> x" unfolding k_def using x(2) by (rule Least_le)
  then have kl: "k < length U" using x(1) by simp
  have least: "c y = 0" if "y < k" for y
    using that not_less_Least[of y "\<lambda>k. c k \<noteq> 0"] by (auto simp: k_def)
  have others: "(\<Sum>y\<in>{..<length U} - {k}. c y * U ! y ! k) = 0"
  proof (intro sum.neutral ballI)
    fix y assume y: "y \<in> {..<length U} - {k}"
    show "c y * U ! y ! k = 0"
    proof (cases "y < k")
      case True
      then show ?thesis using least by simp
    next
      case False
      then have "k < y" "y < length U" using y by auto
      then have "U ! y ! k = 0" using low kl by (simp add: lower_zero_def)
      then show ?thesis by simp
    qed
  qed
  have "(\<Sum>y<length U. c y * U ! y ! k) = c k * U ! k ! k + (\<Sum>y\<in>{..<length U} - {k}. c y * U ! y ! k)"
    using kl by (intro sum.remove) auto
  then have "c k * U ! k ! k = 0" using z kl others by simp
  then show ?thesis using ck kl by auto
qed

lemma det_pure_dependent:
  assumes u: "uniform (length A) A" and d: "dependent_rows (length A) A"
  shows "det_pure A = 0"
proof -
  obtain M neg where f: "fold det_step_pure [0..<length A] (A, 1) = (M, neg)"
    by (cases "fold det_step_pure [0..<length A] (A, 1)")
  have lM: "length M = length A"
    using fold_det_step_fst_length[of "[0..<length A]" A 1] f by simp
  have "lower_zero (length A) M \<and> dependent_rows (length A) M"
    using fold_det_step_inv[OF u d, of "length A"] f by simp
  then obtain k where k: "k < length M" "M ! k ! k = 0"
    using triangular_dependent_diag[of M] lM by auto
  then have "0 \<in> set (map (\<lambda>c. M ! c ! c) [0..<length M])" by force
  then have "prod_list (map (\<lambda>c. M ! c ! c) [0..<length M]) = 0"
    by (simp only: prod_list_zero_iff)
  then show ?thesis by (simp add: det_pure_def f)
qed

text \<open>
  Claim C8.  On a square matrix that has an all-zero row, or two equal rows, \<^verbatim>\<open>det\<close>
  returns exactly zero, at every verbose level.
\<close>

theorem det_zero_or_equal_rows:
  assumes "valid_matrix A" "length A = length (hd A)"
    "(\<exists>i<length A. Row_is_zero (A ! i)) \<or> (\<exists>i<length A. \<exists>j<length A. i \<noteq> j \<and> A ! i = A ! j)"
  shows "det verbose A = Inr 0"
proof -
  have u: "uniform (length A) A" using assms(1,2) by (simp add: valid_matrix_uniform)
  have ne: "0 < length (hd A)" using assms(1,2) valid_matrix_nonempty by fastforce
  have "dependent_rows (length A) A" using assms(3)
  proof
    assume "\<exists>i<length A. Row_is_zero (A ! i)"
    then obtain i where i: "i < length A" "Row_is_zero (A ! i)" by blast
    have "\<forall>col<length A. A ! i ! col = 0"
      using i uniform_nth[OF u i(1)] by (simp add: Row_is_zero_def list_all_length)
    then show ?thesis using i(1) by (intro dependent_zero_row[of i])
  next
    assume "\<exists>i<length A. \<exists>j<length A. i \<noteq> j \<and> A ! i = A ! j"
    then show ?thesis by (auto intro: dependent_equal_rows)
  qed
  then have "det_pure A = 0" using u by (intro det_pure_dependent)
  then show ?thesis using assms(1,2) ne by (simp add: det_eq)
qed

theorem det_zero_or_equal_rows_witness:
  "valid_matrix [[1, 2, 3], [4, 5, 6], [1, 2, 3]] \<and>
   length [[1, 2, 3], [4, 5, 6], [1, 2, 3 :: rat]] = length (hd [[1, 2, 3], [4, 5, 6], [1, 2, 3 :: rat]]) \<and>
   [[1, 2, 3], [4, 5, 6], [1, 2, 3 :: rat]] ! 0 = [[1, 2, 3], [4, 5, 6], [1, 2, 3]] ! 2 \<and>
   det 0 [[1, 2, 3], [4, 5, 6], [1, 2, 3]] = Inr 0"
proof -
  let ?A = "[[1, 2, 3], [4, 5, 6], [1, 2, 3 :: rat]]"
  have v: "valid_matrix ?A" by code_simp
  have s: "length ?A = length (hd ?A)" by simp
  have e: "?A ! 0 = ?A ! 2" by simp
  have "\<exists>i<length ?A. \<exists>j<length ?A. i \<noteq> j \<and> ?A ! i = ?A ! j"
    by (rule exI[of _ 0], simp, rule exI[of _ 2], simp)
  then have "det 0 ?A = Inr 0" using det_zero_or_equal_rows[OF v s] by blast
  then show ?thesis using v s e by blast
qed

section \<open>The algorithms change no object that existed before the call\<close>

lemma keeps_hret: "Q x \<Longrightarrow> keeps L Q (hret x)"
  by (simp add: keeps_def hret_def)

lemma keeps_hlift: "(\<And>x. r = Inr x \<Longrightarrow> Q x) \<Longrightarrow> keeps L Q (hlift r)"
  by (simp add: keeps_def hlift_def)

lemma keeps_raise: "keeps L Q (hlift (Inl e))"
  by (simp add: keeps_def hlift_def)

lemma keeps_weaken: "keeps L Q p \<Longrightarrow> (\<And>x. Q x \<Longrightarrow> Q' x) \<Longrightarrow> keeps L Q' p"
  unfolding keeps_def by (fastforce split: prod.splits)

lemma keeps_any: "keeps L Q p \<Longrightarrow> keeps L (\<lambda>_. True) p"
  by (erule keeps_weaken) simp

lemma keeps_hbind:
  assumes m: "keeps L Q m" and f: "\<And>x. Q x \<Longrightarrow> keeps L Q' (f x)"
  shows "keeps L Q' (hbind m f)"
  unfolding keeps_def
proof (intro allI impI)
  fix h :: heap assume h: "L \<le> next_addr h"
  obtain r h1 where mh: "m h = (r, h1)" by (cases "m h")
  have 1: "next_addr h \<le> next_addr h1"
    "\<forall>a<L. matrices h1 a = matrices h a \<and> row_objs h1 a = row_objs h a"
    "\<forall>x. r = Inr x \<longrightarrow> Q x"
    using m h mh by (auto simp: keeps_def)
  show "case hbind m f h of (r, h') \<Rightarrow>
           next_addr h \<le> next_addr h' \<and>
           (\<forall>a<L. matrices h' a = matrices h a \<and> row_objs h' a = row_objs h a) \<and>
           (\<forall>x. r = Inr x \<longrightarrow> Q' x)"
  proof (cases r)
    case (Inl e)
    then show ?thesis using 1 mh by (simp add: hbind_def)
  next
    case (Inr x)
    obtain r2 h2 where fh: "f x h1 = (r2, h2)" by (cases "f x h1")
    have "Q x" using 1(3) Inr by simp
    then have "keeps L Q' (f x)" by (rule f)
    moreover have "L \<le> next_addr h1" using h 1(1) by simp
    ultimately have 2: "next_addr h1 \<le> next_addr h2"
      "\<forall>a<L. matrices h2 a = matrices h1 a \<and> row_objs h2 a = row_objs h1 a"
      "\<forall>x. r2 = Inr x \<longrightarrow> Q' x"
      using fh by (auto simp: keeps_def)
    show ?thesis using 1 2 mh Inr fh by (simp add: hbind_def)
  qed
qed

lemma keeps_seq:
  "keeps L (\<lambda>_. True) m \<Longrightarrow> (\<And>x. keeps L Q' (f x)) \<Longrightarrow> keeps L Q' (hbind m f)"
  by (rule keeps_hbind)

lemma keeps_hret_any: "keeps L (\<lambda>_. True) (hret x)"
  by (simp add: keeps_hret)

lemma keeps_hlift_any: "keeps L (\<lambda>_. True) (hlift r)"
  by (simp add: keeps_hlift)

lemma keeps_hwhen: "keeps L (\<lambda>_. True) m \<Longrightarrow> keeps L (\<lambda>_. True) (hwhen b m)"
  by (simp add: hwhen_def keeps_hret)

lemma keeps_if:
  "(b \<Longrightarrow> keeps L Q p) \<Longrightarrow> (\<not> b \<Longrightarrow> keeps L Q q) \<Longrightarrow> keeps L Q (if b then p else q)"
  by simp

lemma keeps_case_option:
  "keeps L Q a \<Longrightarrow> (\<And>k. keeps L Q (f k)) \<Longrightarrow>
   keeps L Q (case x of None \<Rightarrow> a | Some k \<Rightarrow> f k)"
  by (cases x) simp_all

lemma keeps_case_prod:
  "(\<And>a b. keeps L Q (f a b)) \<Longrightarrow> keeps L Q (case x of (a, b) \<Rightarrow> f a b)"
  by (cases x) simp

lemma keeps_hmap:
  assumes "\<And>x. keeps L (\<lambda>_. True) (f x)"
  shows "keeps L (\<lambda>_. True) (hmap f xs)"
  by (induction xs) (auto intro!: keeps_hret_any keeps_seq assms)

subsection \<open>Primitives\<close>

lemma keeps_Row_new: "keeps L (\<lambda>_. True) (Row_new ns)"
  by (simp add: keeps_def Row_new_def)

lemma keeps_Row_nums: "keeps L (\<lambda>_. True) (Row_nums r)"
  by (simp add: keeps_def Row_nums_def)

lemma keeps_Matrix_rows: "keeps L (\<lambda>_. True) (Matrix_rows m)"
  by (simp add: keeps_def Matrix_rows_def)

lemma keeps_Matrix_new: "keeps L (\<lambda>m. L \<le> m) (Matrix_new rs)"
  by (simp add: keeps_def Matrix_new_def)

lemma keeps_Matrix_setitem: "L \<le> m \<Longrightarrow> keeps L (\<lambda>_. True) (Matrix_setitem_o m i r)"
  by (auto simp: keeps_def Matrix_setitem_o_def Let_def)

lemma keeps_Row_len: "keeps L (\<lambda>_. True) (Row_len_o r)"
  unfolding Row_len_o_def by (intro keeps_seq keeps_Row_nums keeps_hret_any)

lemma keeps_Row_getitem: "keeps L (\<lambda>_. True) (Row_getitem_o r i)"
  unfolding Row_getitem_o_def by (intro keeps_seq keeps_Row_nums keeps_hlift_any)

lemma keeps_Row_neg: "keeps L (\<lambda>_. True) (Row_neg_o r)"
  unfolding Row_neg_o_def by (intro keeps_seq keeps_Row_nums keeps_Row_new)

lemma keeps_Row_mul: "keeps L (\<lambda>_. True) (Row_mul_o r c)"
  unfolding Row_mul_o_def by (intro keeps_seq keeps_Row_nums keeps_Row_new)

lemma keeps_Row_add: "keeps L (\<lambda>_. True) (Row_add_o r other)"
  unfolding Row_add_o_def
  by (intro keeps_seq keeps_Row_nums keeps_Row_new keeps_hlift_any)

lemma keeps_Row_truediv: "keeps L (\<lambda>_. True) (Row_truediv_o r c)"
  unfolding Row_truediv_o_def
  by (intro keeps_seq keeps_Row_mul keeps_hlift_any)

lemma keeps_Row_pivot: "keeps L (\<lambda>_. True) (Row_pivot_o r)"
  unfolding Row_pivot_o_def by (intro keeps_seq keeps_Row_nums keeps_hret_any)

lemma keeps_Row_is_zero: "keeps L (\<lambda>_. True) (Row_is_zero_o r)"
  unfolding Row_is_zero_o_def by (intro keeps_seq keeps_Row_nums keeps_hret_any)

lemma keeps_Matrix_len: "keeps L (\<lambda>_. True) (Matrix_len_o m)"
  unfolding Matrix_len_o_def by (intro keeps_seq keeps_Matrix_rows keeps_hret_any)

lemma keeps_Matrix_getitem: "keeps L (\<lambda>_. True) (Matrix_getitem_o m i)"
  unfolding Matrix_getitem_o_def by (intro keeps_seq keeps_Matrix_rows keeps_hlift_any)

lemma keeps_entry: "keeps L (\<lambda>_. True) (entry_o m i c)"
  unfolding entry_o_def by (intro keeps_seq keeps_Matrix_getitem keeps_Row_getitem)

lemma keeps_Matrix_dim: "keeps L (\<lambda>_. True) (Matrix_dim_o m)"
  unfolding Matrix_dim_o_def
  by (intro keeps_seq keeps_Matrix_len keeps_Matrix_getitem
      keeps_Row_len keeps_hret_any)

lemma keeps_Matrix_print: "keeps L (\<lambda>_. True) (Matrix_print_o m)"
  unfolding Matrix_print_o_def
  by (auto intro!: keeps_seq keeps_Matrix_rows keeps_hmap
      keeps_Row_nums keeps_hret_any keeps_raise)

lemma keeps_swap_rows: "L \<le> m \<Longrightarrow> keeps L (\<lambda>_. True) (swap_rows_o m i j)"
  unfolding swap_rows_o_def
  by (intro keeps_seq keeps_Matrix_getitem keeps_Matrix_setitem)

lemma keeps_Matrix_init: "keeps L (\<lambda>m. L \<le> m) (Matrix_init_o x)"
  unfolding Matrix_init_o_def Let_def
  by (auto intro!: keeps_seq keeps_hmap keeps_Row_new keeps_Row_len
      keeps_raise keeps_Matrix_new)

lemma keeps_Matrix_deepcopy: "keeps L (\<lambda>m. L \<le> m) (Matrix_deepcopy_o m)"
  unfolding Matrix_deepcopy_o_def
  by (intro keeps_seq keeps_Matrix_rows keeps_hmap keeps_Row_nums
      keeps_Matrix_init)

lemmas keeps_prims =
  keeps_Row_getitem keeps_Row_neg keeps_Row_mul keeps_Row_add keeps_Row_truediv
  keeps_Row_pivot keeps_Row_is_zero keeps_Matrix_len keeps_Matrix_getitem keeps_entry
  keeps_Matrix_dim keeps_Matrix_print keeps_swap_rows keeps_Matrix_setitem keeps_hwhen
  keeps_Matrix_rows keeps_hmap

subsection \<open>Loops\<close>

lemma keeps_det_find: "keeps L (\<lambda>_. True) (det_find_o new i ks)"
  by (induction ks) (auto intro!: keeps_hret_any keeps_seq keeps_prims)

lemma keeps_scalar_div: "keeps L (\<lambda>_. True) (hbind (hlift (scalar_div a b)) (\<lambda>_. hret ()))"
  by (intro keeps_seq keeps_hlift_any keeps_hret_any)

lemma keeps_det_elim:
  "L \<le> new \<Longrightarrow> keeps L (\<lambda>_. True) (det_elim_o verbose pivot i new js)"
proof (induction js)
  case Nil
  then show ?case by (simp add: keeps_hret_any)
next
  case (Cons j js)
  show ?case
    unfolding det_elim_o.simps
    by (intro keeps_seq keeps_prims keeps_scalar_div
        Cons.IH Cons.prems)
qed

lemma keeps_rref_elim:
  "L \<le> new \<Longrightarrow> keeps L (\<lambda>_. True) (rref_elim_o verbose pivot_pos pivot i new js)"
proof (induction js)
  case Nil
  then show ?case by (simp add: keeps_hret_any)
next
  case (Cons j js)
  show ?case
    unfolding rref_elim_o.simps
    by (intro keeps_seq keeps_prims keeps_scalar_div
        Cons.IH Cons.prems)
qed

lemma keeps_ref_elim:
  "L \<le> new \<Longrightarrow> keeps L (\<lambda>_. True) (ref_elim_o verbose pivot_ind i new js)"
proof (induction js)
  case Nil
  then show ?case by (simp add: keeps_hret_any)
next
  case (Cons j js)
  show ?case
    unfolding ref_elim_o.simps
    by (intro keeps_seq keeps_prims Cons.IH Cons.prems)
qed

lemma keeps_det_loop:
  "L \<le> new \<Longrightarrow> keeps L (\<lambda>_. True) (det_loop_o verbose new neg rest)"
proof (induction rest arbitrary: neg)
  case Nil
  then show ?case by (simp add: keeps_hret_any)
next
  case (Cons i rest)
  have body: "keeps L (\<lambda>_. True)
     (hbind (if k \<noteq> i then hbind (swap_rows_o new i k) (\<lambda>_. hret (neg * (- 1)))
             else hret neg) (\<lambda>neg1.
      hbind (hwhen (verbose > 1 \<and> k \<noteq> i) (Matrix_print_o new)) (\<lambda>_.
      hbind (entry_o new i (int i)) (\<lambda>pivot.
      hbind (det_elim_o verbose pivot i new [i + 1..<n]) (\<lambda>_.
      hbind (hwhen (verbose = 1) (Matrix_print_o new)) (\<lambda>_.
      det_loop_o verbose new neg1 rest))))))" for k n
    by (intro keeps_seq keeps_if keeps_prims keeps_hret_any
        keeps_det_elim Cons.IH Cons.prems)
  show ?case
    unfolding det_loop_o.simps
    by (intro keeps_seq keeps_prims keeps_det_find keeps_case_option body Cons.IH Cons.prems)
qed

lemma keeps_diag_product: "keeps L (\<lambda>_. True) (diag_product_o new a cs)"
  by (induction cs arbitrary: a)
    (auto intro!: keeps_hret_any keeps_seq keeps_prims)

lemma keeps_ref_pivots: "keeps L (\<lambda>_. True) (ref_pivots_o new i)"
  unfolding ref_pivots_o_def
  by (intro keeps_seq keeps_prims keeps_hret_any)

lemma keeps_ref_loop:
  "L \<le> new \<Longrightarrow> keeps L (\<lambda>_. True) (ref_loop_o verbose new rest)"
proof (induction rest)
  case Nil
  then show ?case by (simp add: keeps_hret_any)
next
  case (Cons i rest)
  have body: "keeps L (\<lambda>_. True)
     (hbind (entry_o new pivot_row pivot_ind) (\<lambda>pivot.
      hbind (swap_rows_o new i pivot_row) (\<lambda>_.
      hbind (hwhen (verbose > 1 \<and> pivot_row \<noteq> i) (Matrix_print_o new)) (\<lambda>_.
      hbind (Matrix_getitem_o new i) (\<lambda>ri.
      hbind (Row_truediv_o ri pivot) (\<lambda>ri'.
      hbind (Matrix_setitem_o new i ri') (\<lambda>_.
      hbind (hwhen (verbose > 1 \<and> pivot \<noteq> 1)
               (hbind (hlift (scalar_div 1 pivot)) (\<lambda>_. Matrix_print_o new))) (\<lambda>_.
      hbind (Matrix_len_o new) (\<lambda>n.
      hbind (ref_elim_o verbose pivot_ind i new [i + 1..<n]) (\<lambda>_.
      hbind (hwhen (verbose = 1) (Matrix_print_o new)) (\<lambda>_.
      ref_loop_o verbose new rest)))))))))))" for pivot_row pivot_ind
    by (intro keeps_seq keeps_prims keeps_hlift_any
        keeps_ref_elim Cons.IH Cons.prems)
  show ?case
    unfolding ref_loop_o.simps
    by (intro keeps_seq keeps_ref_pivots keeps_if keeps_case_prod body Cons.IH Cons.prems)
qed

lemma keeps_rref_loop:
  "L \<le> new \<Longrightarrow> keeps L (\<lambda>_. True) (rref_loop_o verbose new rest)"
proof (induction rest)
  case Nil
  then show ?case by (simp add: keeps_hret_any)
next
  case (Cons i rest)
  have body: "keeps L (\<lambda>_. True)
     (hbind (Row_getitem_o ri pivot_pos) (\<lambda>pivot.
      hbind (rref_elim_o verbose pivot_pos pivot i new [0..<i]) (\<lambda>_.
      hbind (hwhen (verbose = 1) (Matrix_print_o new)) (\<lambda>_.
      rref_loop_o verbose new rest))))" for ri pivot_pos
    by (intro keeps_seq keeps_prims keeps_rref_elim
        Cons.IH Cons.prems)
  show ?case
    unfolding rref_loop_o.simps
    by (intro keeps_seq keeps_prims keeps_if body Cons.IH Cons.prems)
qed

subsection \<open>The three algorithms\<close>

lemma keeps_det: "keeps L (\<lambda>_. True) (det_o verbose self)"
  unfolding det_o_def
proof (rule keeps_hbind[OF keeps_Matrix_deepcopy])
  fix new assume new: "L \<le> new"
  show "keeps L (\<lambda>_. True)
     (hbind (Matrix_dim_o new) (\<lambda>d1.
      hbind (Matrix_dim_o new) (\<lambda>d2.
      if snd d1 \<noteq> snd d2 then hbind (Matrix_dim_o new) (\<lambda>d. hlift (Inl (NotSquare d)))
      else
        hbind (hwhen (verbose > 0) (Matrix_print_o new)) (\<lambda>_.
        hbind (Matrix_len_o new) (\<lambda>n.
        hbind (det_loop_o verbose new 1 [0..<n]) (\<lambda>neg.
        hbind (diag_product_o new 1 [0..<n]) (\<lambda>p.
        hret (of_int neg * p))))))))"
    by (intro keeps_seq keeps_if keeps_prims keeps_raise
        keeps_det_loop keeps_diag_product keeps_hret_any new)
qed

lemma keeps_ref: "keeps L (\<lambda>new. L \<le> new) (ref_o verbose self)"
  unfolding ref_o_def
proof (rule keeps_hbind[OF keeps_Matrix_deepcopy])
  fix new assume new: "L \<le> new"
  show "keeps L ((\<le>) L)
     (hbind (hwhen (verbose > 0) (Matrix_print_o new)) (\<lambda>_.
      hbind (Matrix_len_o new) (\<lambda>n.
      hbind (ref_loop_o verbose new [0..<n]) (\<lambda>_.
      hret new))))"
    by (intro keeps_seq keeps_prims keeps_ref_loop keeps_hret new)
qed

lemma keeps_rref: "keeps L (\<lambda>new. L \<le> new) (rref_o verbose self)"
  unfolding rref_o_def
proof (rule keeps_hbind[OF keeps_ref])
  fix new assume new: "L \<le> new"
  show "keeps L ((\<le>) L)
     (hbind (Matrix_len_o new) (\<lambda>n.
      hbind (rref_loop_o verbose new [1..<n]) (\<lambda>_.
      hret new)))"
    by (intro keeps_seq keeps_prims keeps_rref_loop keeps_hret new)
qed

subsection \<open>The receiver is left as it was\<close>

lemma keeps_matrix_at:
  assumes k: "keeps (next_addr h) Q p" and obj: "matrix_obj h m"
  shows "matrix_at (snd (p h)) m = matrix_at h m"
    and "\<forall>a<next_addr h. matrices (snd (p h)) a = matrices h a \<and>
           row_objs (snd (p h)) a = row_objs h a"
proof -
  obtain r h' where ph: "p h = (r, h')" by (cases "p h")
  have same: "\<forall>a<next_addr h. matrices h' a = matrices h a \<and> row_objs h' a = row_objs h a"
    using k ph by (auto simp: keeps_def)
  then show "\<forall>a<next_addr h. matrices (snd (p h)) a = matrices h a \<and>
           row_objs (snd (p h)) a = row_objs h a"
    by (simp add: ph)
  obtain rs where rs: "matrices h m = Some rs" "m < next_addr h" "\<forall>r\<in>set rs. r < next_addr h"
    using obj by (auto simp: matrix_obj_def list_all_iff split: option.splits)
  have "matrices h' m = Some rs" using same rs by simp
  moreover have "\<forall>r\<in>set rs. row_objs h' r = row_objs h r" using same rs(3) by simp
  ultimately have "matrix_at h' m = matrix_at h m"
    using rs(1) by (simp add: matrix_at_def)
  then show "matrix_at (snd (p h)) m = matrix_at h m" by (simp add: ph)
qed

text \<open>
  Claim C6.  Calling \<^verbatim>\<open>det\<close>, \<^verbatim>\<open>ref\<close> or \<^verbatim>\<open>rref\<close> on a matrix object, at any verbose
  level and whether the call returns or raises, leaves every object that existed before
  the call as it was; in particular every entry of the receiver is what it was before.
\<close>

theorem receiver_unchanged:
  assumes "matrix_obj h self"
  shows "matrix_at (snd (det_o verbose self h)) self = matrix_at h self \<and>
         matrix_at (snd (ref_o verbose self h)) self = matrix_at h self \<and>
         matrix_at (snd (rref_o verbose self h)) self = matrix_at h self \<and>
         (\<forall>a<next_addr h.
            matrices (snd (det_o verbose self h)) a = matrices h a \<and>
            row_objs (snd (det_o verbose self h)) a = row_objs h a \<and>
            matrices (snd (ref_o verbose self h)) a = matrices h a \<and>
            row_objs (snd (ref_o verbose self h)) a = row_objs h a \<and>
            matrices (snd (rref_o verbose self h)) a = matrices h a \<and>
            row_objs (snd (rref_o verbose self h)) a = row_objs h a)"
  using keeps_matrix_at[OF keeps_det assms, of verbose self]
    keeps_matrix_at[OF keeps_ref assms, of verbose self]
    keeps_matrix_at[OF keeps_rref assms, of verbose self]
  by simp

theorem receiver_unchanged_witness:
  "matrix_obj (snd (Matrix_init_o [[0, 2], [3, 4]] empty_heap)) 2 \<and>
   fst (ref_o 2 2 (snd (Matrix_init_o [[0, 2], [3, 4]] empty_heap))) = Inr 5 \<and>
   matrix_at (snd (ref_o 2 2 (snd (Matrix_init_o [[0, 2], [3, 4]] empty_heap)))) 5 =
     [[1, 4 / 3], [0, 1]] \<and>
   matrix_at (snd (ref_o 2 2 (snd (Matrix_init_o [[0, 2], [3, 4]] empty_heap)))) 2 =
     [[0, 2], [3, 4]]"
proof -
  let ?h = "snd (Matrix_init_o [[0, 2], [3, 4]] empty_heap)"
  have obj: "matrix_obj ?h 2" by code_simp
  have r: "fst (ref_o 2 2 ?h) = Inr 5" by code_simp
  have n: "matrix_at (snd (ref_o 2 2 ?h)) 5 = [[1, 4 / 3], [0, 1]]" by code_simp
  have b: "matrix_at ?h 2 = [[0, 2], [3, 4]]" by code_simp
  from receiver_unchanged[OF obj, of 2] b
  have "matrix_at (snd (ref_o 2 2 ?h)) 2 = [[0, 2], [3, 4]]" by simp
  then show ?thesis using obj r n by blast
qed

end
